theory Spec2Isabelle
  imports Main "HOL-Library.Word"
begin

unbundle bit_operations_syntax

section \<open>Data model\<close>

text \<open>
  Go's \<open>uint32\<close> is a 32-bit word: \<open><<\<close> is \<open>push_bit\<close> (bits shifted out are
  lost), \<open>>>\<close> is \<open>drop_bit\<close>.  Go's \<open>int\<close> holds every value computed here (all are
  below \<open>2 ^ 12\<close>), so it is modelled by \<open>int\<close>.
\<close>

type_synonym uint32 = "32 word"

text \<open>
  The values of Go's interface type \<open>error\<close> that can reach this package: the two
  sentinel errors of package \<open>io\<close>, an error made from a message by package \<open>fmt\<close>'s
  scanner, the range error of \<open>strconv.ParseUint\<close> (it carries the token), and an
  error handed over by a resolver, named by its message.
\<close>

datatype go_error =
    io_EOF
  | io_ErrUnexpectedEOF
  | scanError string
  | strconv_ErrRange string
  | resolverError string

record Result =
  Year :: int
  Month :: int
  DTAI :: int
  Delta :: int

record Error =
  Code :: int
  Err :: "go_error option"

text \<open>\<open>Result{}\<close>, the zero value.\<close>

definition Result_zero :: Result where
  "Result_zero = \<lparr>Year = 0, Month = 0, DTAI = 0, Delta = 0\<rparr>"

definition errorCodeReason :: "int \<rightharpoonup> string" where
  "errorCodeReason =
     [-1 \<mapsto> ''invalid address'',
      -2 \<mapsto> ''invalid checksum'',
      -3 \<mapsto> ''invalid action'',
      -10 \<mapsto> ''lookup failed'',
      -11 \<mapsto> ''empty response'']"

section \<open>The checksum\<close>

text \<open>
  The loop \<open>for i := 0; i < bits; i++\<close> of \<open>crc8\<close>, with \<open>bits = 28\<close>: the counter and
  the register are the loop state.
\<close>

function crc8_loop :: "nat \<Rightarrow> uint32 \<Rightarrow> uint32" where
  "crc8_loop i crc =
     (if i < 28
      then crc8_loop (i + 1)
             (push_bit 1 (if crc AND push_bit 31 1 \<noteq> 0 then crc XOR push_bit 23 0x12f else crc))
      else crc)"
  by pat_completeness auto
termination
  by (relation "measure (\<lambda>(i, crc). 28 - i)") auto

declare crc8_loop.simps [simp del]

definition crc8 :: "uint32 \<Rightarrow> uint32" where
  "crc8 u = drop_bit 24 (crc8_loop 0 (0x54a9abf8 XOR push_bit (32 - 28) u))"

section \<open>Scanning the address text\<close>

text \<open>
  \<open>Decode\<close> calls \<open>fmt.Sscanf(ip, "%d.%d.%d.%d", &o1, &o2, &o3, &o4)\<close> with four
  \<open>*uint32\<close> operands.  The scanner of package \<open>fmt\<close> is library code; what follows is
  its behaviour on this one format, on the bytes of the input.

  The scanner reads runes.  On this format it consumes only white space, decimal digits
  and the literal dot, and stops at any other rune, so it is enough to recognise the
  UTF-8 encodings of the white-space runes that \<open>fmt\<close>'s \<open>isSpace\<close> accepts: U+0009 to
  U+000D, U+0020, U+0085, U+00A0, U+1680, U+2000 to U+200A, U+2028, U+2029, U+202F,
  U+205F and U+3000.  \<open>space_utf8\<close> lists their encodings; \<open>space_width\<close> is the number
  of bytes of such a rune at the head of the input, and 0 when there is none.  (The
  scanner's limit of \<open>2 ^ 30\<close> runes per scan is not modelled.)
\<close>

definition space_utf8 :: "nat list list" where
  "space_utf8 =
     [[0x09], [0x0A], [0x0B], [0x0C], [0x0D], [0x20],
      [0xC2, 0x85], [0xC2, 0xA0],
      [0xE1, 0x9A, 0x80],
      [0xE2, 0x80, 0x80], [0xE2, 0x80, 0x81], [0xE2, 0x80, 0x82], [0xE2, 0x80, 0x83],
      [0xE2, 0x80, 0x84], [0xE2, 0x80, 0x85], [0xE2, 0x80, 0x86], [0xE2, 0x80, 0x87],
      [0xE2, 0x80, 0x88], [0xE2, 0x80, 0x89], [0xE2, 0x80, 0x8A],
      [0xE2, 0x80, 0xA8], [0xE2, 0x80, 0xA9], [0xE2, 0x80, 0xAF],
      [0xE2, 0x81, 0x9F],
      [0xE3, 0x80, 0x80]]"

definition space_width :: "string \<Rightarrow> nat" where
  "space_width s =
     (case find (\<lambda>e. take (length e) (map of_char s) = e) space_utf8 of
        None \<Rightarrow> 0
      | Some e \<Rightarrow> length e)"

text \<open>
  \<open>SkipSpace\<close> as \<open>Sscanf\<close> runs it (\<open>nlIsSpace\<close> is false): a carriage return before a
  newline is skipped, a newline is the error "unexpected newline", other white space is
  skipped, and the first rune that is not white space is left in the input.
\<close>

function SkipSpace :: "string \<Rightarrow> go_error + string" where
  "SkipSpace s =
     (case s of
        [] \<Rightarrow> Inr []
      | c # cs \<Rightarrow>
          if c = CHR 0x0D \<and> take 1 cs = [CHR 0x0A] then SkipSpace cs
          else if c = CHR 0x0A then Inl (scanError ''unexpected newline'')
          else if space_width s = 0 then Inr s
          else SkipSpace (drop (space_width s) s))"
  by pat_completeness auto
termination
  by (relation "measure length") auto

declare SkipSpace.simps [simp del]

definition decimalDigits :: string where
  "decimalDigits = ''0123456789''"

text \<open>
  The value \<open>strconv.ParseUint(tok, 10, 64)\<close> accumulates over a token of decimal
  digits, as a natural number; \<open>ParseUint\<close> reports a range error exactly when this
  value does not fit 64 bits.
\<close>

definition token_value :: "string \<Rightarrow> nat" where
  "token_value tok = foldl (\<lambda>n c. n * 10 + (of_char c - of_char CHR ''0'')) 0 tok"

text \<open>
  \<open>scanUint\<close> for the verb \<open>%d\<close> and 32 bits: skip white space, fail with \<open>io.EOF\<close> at
  the end of the input, read the longest run of decimal digits (at least one, else
  "expected integer"; no sign is accepted), convert it, and refuse a value that does
  not fit 32 bits.  The result is the value and the rest of the input.
\<close>

definition scanUint :: "string \<Rightarrow> go_error + (uint32 \<times> string)" where
  "scanUint s =
     (case SkipSpace s of
        Inl e \<Rightarrow> Inl e
      | Inr s' \<Rightarrow>
          if s' = [] then Inl io_EOF
          else
            let tok = takeWhile (\<lambda>c. c \<in> set decimalDigits) s';
                rest = dropWhile (\<lambda>c. c \<in> set decimalDigits) s'
            in if tok = [] then Inl (scanError ''expected integer'')
               else if 2 ^ 64 \<le> token_value tok then Inl (strconv_ErrRange tok)
               else if 2 ^ 32 \<le> token_value tok
                 then Inl (scanError (''unsigned integer overflow on token '' @ tok))
               else Inr (of_nat (token_value tok), rest))"

text \<open>
  The literal \<open>.\<close> of the format: the next rune must be a dot; the end of the input is
  \<open>io.ErrUnexpectedEOF\<close>, another rune is "input does not match format".
\<close>

definition literal_dot :: "string \<Rightarrow> go_error + string" where
  "literal_dot s =
     (case s of
        [] \<Rightarrow> Inl io_ErrUnexpectedEOF
      | c # cs \<Rightarrow> if c = CHR ''.'' then Inr cs else Inl (scanError ''input does not match format''))"

text \<open>
  \<open>Sscanf\<close> on the format \<open>%d.%d.%d.%d\<close>: the number of operands stored, the error, and
  the four operands (each stays 0 until it is stored).  Input after the fourth integer
  is not read.
\<close>

definition Sscanf :: "string \<Rightarrow> int \<times> go_error option \<times> uint32 \<times> uint32 \<times> uint32 \<times> uint32" where
  "Sscanf ip =
     (case scanUint ip of
        Inl e \<Rightarrow> (0, Some e, 0, 0, 0, 0)
      | Inr (o1, s1) \<Rightarrow>
     (case literal_dot s1 of
        Inl e \<Rightarrow> (1, Some e, o1, 0, 0, 0)
      | Inr s1' \<Rightarrow>
     (case scanUint s1' of
        Inl e \<Rightarrow> (1, Some e, o1, 0, 0, 0)
      | Inr (o2, s2) \<Rightarrow>
     (case literal_dot s2 of
        Inl e \<Rightarrow> (2, Some e, o1, o2, 0, 0)
      | Inr s2' \<Rightarrow>
     (case scanUint s2' of
        Inl e \<Rightarrow> (2, Some e, o1, o2, 0, 0)
      | Inr (o3, s3) \<Rightarrow>
     (case literal_dot s3 of
        Inl e \<Rightarrow> (3, Some e, o1, o2, o3, 0)
      | Inr s3' \<Rightarrow>
     (case scanUint s3' of
        Inl e \<Rightarrow> (3, Some e, o1, o2, o3, 0)
      | Inr (o4, s4) \<Rightarrow> (4, None, o1, o2, o3, o4))))))))"

section \<open>Decode\<close>

definition Decode :: "string \<Rightarrow> Result \<times> Error option" where
  "Decode ip =
     (case Sscanf ip of (n, err, o1, o2, o3, o4) \<Rightarrow>
        if n \<noteq> 4 then (Result_zero, Some \<lparr>Code = -1, Err = err\<rparr>)
        else
          let u = push_bit 24 o1;
              u = u OR push_bit 16 o2;
              u = u OR push_bit 8 o3;
              u = u OR o4
          in if drop_bit 28 u \<noteq> 0xf then (Result_zero, Some \<lparr>Code = -1, Err = None\<rparr>)
             else if crc8 u \<noteq> 0x80 then (Result_zero, Some \<lparr>Code = -2, Err = None\<rparr>)
             else
               let u = drop_bit 8 u;
                   ob = u AND 0x7f;
                   u = drop_bit 7 u;
                   d = u AND 3;
                   u = drop_bit 2 u;
                   mn = (u AND 0x7ff) + 10
               in if d = 3 then (Result_zero, Some \<lparr>Code = -3, Err = None\<rparr>)
                  else
                    let r = \<lparr>Year = 1971 + uint mn div 12,
                             Month = 1 + uint mn mod 12,
                             DTAI = uint ob,
                             Delta = 0\<rparr>;
                        r = (if d = 0 then r\<lparr>Delta := 0\<rparr>
                             else if d = 1 then r\<lparr>Delta := -1\<rparr>
                             else if d = 2 then r\<lparr>Delta := 1\<rparr>
                             else r)
                    in (r, None))"

text \<open>\<open>TestVectors\<close>: address, expected result, expected error.\<close>

definition TestVectors :: "(string \<times> Result \<times> Error option) list" where
  "TestVectors =
     [(''240.3.9.77'', \<lparr>Year = 1971, Month = 12, DTAI = 9, Delta = 1\<rparr>, None),
      (''240.15.10.108'', \<lparr>Year = 1972, Month = 6, DTAI = 10, Delta = 1\<rparr>, None),
      (''242.18.28.160'', \<lparr>Year = 1993, Month = 12, DTAI = 28, Delta = 0\<rparr>, None),
      (''255.76.200.237'', \<lparr>Year = 2135, Month = 1, DTAI = 72, Delta = -1\<rparr>, None),
      (''127.240.133.76'', \<lparr>Year = 0, Month = 0, DTAI = 0, Delta = 0\<rparr>,
         Some \<lparr>Code = -1, Err = None\<rparr>),
      (''255.209.76.40'', \<lparr>Year = 0, Month = 0, DTAI = 0, Delta = 0\<rparr>,
         Some \<lparr>Code = -2, Err = None\<rparr>),
      (''241.179.152.73'', \<lparr>Year = 0, Month = 0, DTAI = 0, Delta = 0\<rparr>,
         Some \<lparr>Code = -3, Err = None\<rparr>)]"

section \<open>The resolver\<close>

text \<open>
  A \<open>Resolver\<close> is its method \<open>LookupHost\<close>: from a context and a host name to the
  addresses and the error.  A nil context or resolver is \<open>None\<close>; \<open>LookupHost\<close> panics on
  either.
\<close>

type_synonym 'c Resolver = "'c \<Rightarrow> string \<Rightarrow> string list \<times> go_error option"

datatype panic = context_is_nil | resolver_is_nil

text \<open>
  The loop \<open>for _, ip = range ips\<close>: the state is the three variables \<open>ip\<close>, \<open>dr\<close> and
  \<open>err\<close>; \<open>break\<close> leaves it with the state of the successful call.
\<close>

fun LookupHost_loop ::
  "string list \<Rightarrow> string \<times> Result \<times> Error option \<Rightarrow> string \<times> Result \<times> Error option" where
  "LookupHost_loop [] st = st"
| "LookupHost_loop (ip # ips) st =
     (case Decode ip of (dr, err) \<Rightarrow>
        if err = None then (ip, dr, err) else LookupHost_loop ips (ip, dr, err))"

definition LookupHost ::
  "'c option \<Rightarrow> 'c Resolver option \<Rightarrow> string \<Rightarrow> panic + (string \<times> Result \<times> Error option)" where
  "LookupHost ctx r host =
     (case ctx of
        None \<Rightarrow> Inl context_is_nil
      | Some c \<Rightarrow>
     (case r of
        None \<Rightarrow> Inl resolver_is_nil
      | Some lookup \<Rightarrow>
     (case lookup c host of (ips, err) \<Rightarrow>
        if err \<noteq> None then Inr ('''', Result_zero, Some \<lparr>Code = -10, Err = err\<rparr>)
        else if length ips = 0 then Inr ('''', Result_zero, Some \<lparr>Code = -11, Err = None\<rparr>)
        else Inr (LookupHost_loop ips ('''', Result_zero, None)))))"

definition Lookup ::
  "'c option \<Rightarrow> 'c Resolver option \<Rightarrow> panic + (string \<times> Result \<times> Error option)" where
  "Lookup ctx r = LookupHost ctx r ''leapsecond.utcd.org''"

section \<open>The encoder of the round-trip property\<close>

text \<open>
  Modelled from the spec: the encoder of the round-trip property.  The repository has
  no encoder; the layout is the one of the header comment of the source: the tag
  \<open>1111\<close>, eleven bits of \<open>month = (year - 1971) * 12 + month - 11\<close>, two bits of
  \<open>d\<close> (0 nothing, 1 subtract one, 2 add one), seven bits of \<open>dTAI\<close>, and the CRC byte,
  the one that makes \<open>crc8\<close> of the word \<open>0x80\<close>.
\<close>

definition month_offset :: "int \<Rightarrow> int \<Rightarrow> int" where
  "month_offset year month = (year - 1971) * 12 + month - 11"

definition action_code :: "int \<Rightarrow> uint32" where
  "action_code delta = (if delta = 0 then 0 else if delta = -1 then 1 else if delta = 1 then 2 else 3)"

text \<open>The upper 24 bits of the word; a field wider than its place is cut to it.\<close>

definition encode_fields :: "int \<Rightarrow> int \<Rightarrow> int \<Rightarrow> int \<Rightarrow> uint32" where
  "encode_fields year month dtai delta =
     push_bit 28 0xF
     OR push_bit 17 (take_bit 11 (word_of_int (month_offset year month)))
     OR push_bit 15 (take_bit 2 (action_code delta))
     OR push_bit 8 (take_bit 7 (word_of_int dtai))"

text \<open>The first byte \<open>c\<close>, counting from 0, with \<open>crc8 (w OR c) = 0x80\<close>.\<close>

definition crc_byte :: "uint32 \<Rightarrow> uint32 option" where
  "crc_byte w = find (\<lambda>c. crc8 (w OR c) = 0x80) (map of_nat [0 ..< 256])"

definition encode :: "int \<Rightarrow> int \<Rightarrow> int \<Rightarrow> int \<Rightarrow> uint32 option" where
  "encode year month dtai delta =
     (case crc_byte (encode_fields year month dtai delta) of
        None \<Rightarrow> None
      | Some c \<Rightarrow> Some (encode_fields year month dtai delta OR c))"

text \<open>The decimal digits of a natural number, without leading zeros.\<close>

function decimal :: "nat \<Rightarrow> string" where
  "decimal n =
     (if n < 10 then [decimalDigits ! n]
      else decimal (n div 10) @ [decimalDigits ! (n mod 10)])"
  by pat_completeness auto
termination
  by (relation "measure id") auto

declare decimal.simps [simp del]

text \<open>The dotted-quad text of a word: its four octets in decimal, the most significant first.\<close>

definition dotted_quad :: "uint32 \<Rightarrow> string" where
  "dotted_quad u =
     decimal (unat (drop_bit 24 u)) @ ''.'' @
     decimal (unat (drop_bit 16 u AND 0xff)) @ ''.'' @
     decimal (unat (drop_bit 8 u AND 0xff)) @ ''.'' @
     decimal (unat (u AND 0xff))"

text \<open>
  The words of the spec for the text that passes the scan: exactly four integers, made
  of decimal digits, with a dot between each two.
\<close>

fun split_dots :: "string \<Rightarrow> string list" where
  "split_dots [] = [[]]"
| "split_dots (c # cs) =
     (if c = CHR ''.'' then [] # split_dots cs
      else (c # hd (split_dots cs)) # tl (split_dots cs))"

definition four_dotted_integers :: "string \<Rightarrow> bool" where
  "four_dotted_integers s =
     (length (split_dots s) = 4 \<and>
      list_all (\<lambda>p. p \<noteq> [] \<and> list_all (\<lambda>c. c \<in> set decimalDigits) p) (split_dots s))"

section \<open>The checksum: properties\<close>

text \<open>
  C6.  \<open>crc8\<close> applied to the 32-bit input \<open>0x041723ff\<close> returns exactly \<open>0x80\<close>
  (the test \<open>TestCRC8\<close>).
\<close>

theorem crc8_reference_value: "crc8 0x041723ff = 0x80"
  by (simp add: crc8_def crc8_loop.simps)

section \<open>Decode: one lemma for each way out\<close>

lemma Decode_parse_fail:
  assumes "Sscanf ip = (n, err, o1, o2, o3, o4)" and "n \<noteq> 4"
  shows "Decode ip = (Result_zero, Some \<lparr>Code = -1, Err = err\<rparr>)"
  using assms by (simp only: Decode_def prod.case if_True simp_thms)

lemma Decode_bad_tag:
  assumes "Sscanf ip = (4, err, o1, o2, o3, o4)"
    and "u = ((push_bit 24 o1 OR push_bit 16 o2) OR push_bit 8 o3) OR o4"
    and "drop_bit 28 u \<noteq> 0xf"
  shows "Decode ip = (Result_zero, Some \<lparr>Code = -1, Err = None\<rparr>)"
  using assms by (simp only: Decode_def Let_def prod.case if_True if_False simp_thms)

lemma Decode_bad_crc:
  assumes "Sscanf ip = (4, err, o1, o2, o3, o4)"
    and "u = ((push_bit 24 o1 OR push_bit 16 o2) OR push_bit 8 o3) OR o4"
    and "drop_bit 28 u = 0xf" and "crc8 u \<noteq> 0x80"
  shows "Decode ip = (Result_zero, Some \<lparr>Code = -2, Err = None\<rparr>)"
  using assms by (simp only: Decode_def Let_def prod.case if_True if_False simp_thms)

lemma Decode_bad_action:
  assumes "Sscanf ip = (4, err, o1, o2, o3, o4)"
    and "u = ((push_bit 24 o1 OR push_bit 16 o2) OR push_bit 8 o3) OR o4"
    and "drop_bit 28 u = 0xf" and "crc8 u = 0x80"
    and "drop_bit 7 (drop_bit 8 u) AND 3 = 3"
  shows "Decode ip = (Result_zero, Some \<lparr>Code = -3, Err = None\<rparr>)"
  using assms by (simp only: Decode_def Let_def prod.case if_True if_False simp_thms)

lemma Delta_switch:
  "(if d = (0::uint32) then r\<lparr>Delta := 0\<rparr>
    else if d = 1 then r\<lparr>Delta := -1\<rparr>
    else if d = 2 then r\<lparr>Delta := 1\<rparr> else r) =
   r\<lparr>Delta := (if d = 0 then 0 else if d = 1 then -1 else if d = 2 then 1 else Delta r)\<rparr>"
  by simp

lemma Decode_ok:
  assumes "Sscanf ip = (4, err, o1, o2, o3, o4)"
    and "u = ((push_bit 24 o1 OR push_bit 16 o2) OR push_bit 8 o3) OR o4"
    and "drop_bit 28 u = 0xf" and "crc8 u = 0x80"
    and "d = drop_bit 7 (drop_bit 8 u) AND 3" and "d \<noteq> 3"
    and "mn = (drop_bit 2 (drop_bit 7 (drop_bit 8 u)) AND 0x7ff) + 10"
  shows "Decode ip =
    (\<lparr>Year = 1971 + uint mn div 12, Month = 1 + uint mn mod 12,
      DTAI = uint (drop_bit 8 u AND 0x7f),
      Delta = (if d = 0 then 0 else if d = 1 then -1 else if d = 2 then 1 else 0)\<rparr>, None)"
  using assms
  by (simp only: Decode_def Let_def prod.case if_True if_False simp_thms Delta_switch
        Result.update_convs Result.select_convs)

text \<open>Every call of \<open>Decode\<close> leaves by one of the five ways.\<close>

lemma Decode_cases:
  obtains (parse) n err o1 o2 o3 o4 where
      "Sscanf ip = (n, err, o1, o2, o3, o4)" "n \<noteq> 4"
      "Decode ip = (Result_zero, Some \<lparr>Code = -1, Err = err\<rparr>)"
  | (tag) "Decode ip = (Result_zero, Some \<lparr>Code = -1, Err = None\<rparr>)"
  | (crc) "Decode ip = (Result_zero, Some \<lparr>Code = -2, Err = None\<rparr>)"
  | (action) "Decode ip = (Result_zero, Some \<lparr>Code = -3, Err = None\<rparr>)"
  | (ok) u d mn where
      "d = drop_bit 7 (drop_bit 8 (u :: uint32)) AND 3" "d \<noteq> 3"
      "mn = (drop_bit 2 (drop_bit 7 (drop_bit 8 u)) AND 0x7ff) + 10"
      "Decode ip =
        (\<lparr>Year = 1971 + uint mn div 12, Month = 1 + uint mn mod 12,
          DTAI = uint (drop_bit 8 u AND 0x7f),
          Delta = (if d = 0 then 0 else if d = 1 then -1 else if d = 2 then 1 else 0)\<rparr>, None)"
proof -
  obtain n err o1 o2 o3 o4 where S: "Sscanf ip = (n, err, o1, o2, o3, o4)"
    by (metis prod_cases3)
  define u where "u = ((push_bit 24 o1 OR push_bit 16 o2) OR push_bit 8 o3) OR o4"
  show thesis
  proof (cases "n = 4")
    case False
    then show thesis using parse [OF S] Decode_parse_fail [OF S] by blast
  next
    case n4: True
    show thesis
    proof (cases "drop_bit 28 u = 0xf")
      case False
      then show thesis using tag Decode_bad_tag [OF S [unfolded n4] u_def] by blast
    next
      case t: True
      show thesis
      proof (cases "crc8 u = 0x80")
        case False
        then show thesis using crc Decode_bad_crc [OF S [unfolded n4] u_def t] by blast
      next
        case c: True
        show thesis
        proof (cases "drop_bit 7 (drop_bit 8 u) AND 3 = 3")
          case True
          then show thesis
            using action Decode_bad_action [OF S [unfolded n4] u_def t c] by blast
        next
          case False
          show thesis
            by (rule ok [OF refl False refl])
               (rule Decode_ok [OF S [unfolded n4] u_def t c refl False refl])
        qed
      qed
    qed
  qed
qed

section \<open>The reference vectors, evaluated\<close>

lemmas scan_eval = Sscanf_def scanUint_def SkipSpace.simps space_width_def space_utf8_def
  decimalDigits_def
  token_value_def literal_dot_def

lemma Sscanf_vectors:
  "Sscanf ''240.3.9.77'' = (4, None, 240, 3, 9, 77)"
  "Sscanf ''240.15.10.108'' = (4, None, 240, 15, 10, 108)"
  "Sscanf ''242.18.28.160'' = (4, None, 242, 18, 28, 160)"
  "Sscanf ''255.76.200.237'' = (4, None, 255, 76, 200, 237)"
  "Sscanf ''127.240.133.76'' = (4, None, 127, 240, 133, 76)"
  "Sscanf ''255.209.76.40'' = (4, None, 255, 209, 76, 40)"
  "Sscanf ''241.179.152.73'' = (4, None, 241, 179, 152, 73)"
  by (simp_all add: scan_eval)

lemma crc8_vectors:
  "crc8 0xF003094D = 0x80"
  "crc8 0xF00F0A6C = 0x80"
  "crc8 0xF2121CA0 = 0x80"
  "crc8 0xFF4CC8ED = 0x80"
  "crc8 0xFFD14C28 = 0xAF"
  "crc8 0xF1B39849 = 0x80"
  by (simp_all add: crc8_def crc8_loop.simps)

lemma Decode_vectors:
  "Decode ''240.3.9.77'' = (\<lparr>Year = 1971, Month = 12, DTAI = 9, Delta = 1\<rparr>, None)"
  "Decode ''240.15.10.108'' = (\<lparr>Year = 1972, Month = 6, DTAI = 10, Delta = 1\<rparr>, None)"
  "Decode ''242.18.28.160'' = (\<lparr>Year = 1993, Month = 12, DTAI = 28, Delta = 0\<rparr>, None)"
  "Decode ''255.76.200.237'' = (\<lparr>Year = 2135, Month = 1, DTAI = 72, Delta = -1\<rparr>, None)"
  "Decode ''127.240.133.76'' = (Result_zero, Some \<lparr>Code = -1, Err = None\<rparr>)"
  "Decode ''255.209.76.40'' = (Result_zero, Some \<lparr>Code = -2, Err = None\<rparr>)"
  "Decode ''241.179.152.73'' = (Result_zero, Some \<lparr>Code = -3, Err = None\<rparr>)"
  by (simp_all add: Decode_def Sscanf_vectors crc8_vectors)

text \<open>
  C2.  \<open>Decode\<close> reproduces each of the seven reference vectors of \<open>TestVectors\<close>: the
  result and the error it returns are the expected ones, among them the invalid-address
  error (code -1) for "127.240.133.76", the invalid-checksum error (code -2) for
  "255.209.76.40", the invalid-action error (code -3) for "241.179.152.73", and the
  result 1971, 12, 9, +1 for "240.3.9.77".
\<close>

theorem Decode_TestVectors:
  "map (\<lambda>(ip, r, e). Decode ip) TestVectors = map (\<lambda>(ip, r, e). (r, e)) TestVectors
   \<and> length TestVectors = 7
   \<and> Decode ''127.240.133.76'' = (Result_zero, Some \<lparr>Code = -1, Err = None\<rparr>)
   \<and> Decode ''255.209.76.40'' = (Result_zero, Some \<lparr>Code = -2, Err = None\<rparr>)
   \<and> Decode ''241.179.152.73'' = (Result_zero, Some \<lparr>Code = -3, Err = None\<rparr>)
   \<and> Decode ''240.3.9.77'' = (\<lparr>Year = 1971, Month = 12, DTAI = 9, Delta = 1\<rparr>, None)"
  by (simp add: TestVectors_def Decode_vectors Result_zero_def)

text \<open>
  C5.  \<open>crc8\<close> depends only on the low 28 bits of its argument: the four class-tag bits
  are shifted out before the loop starts.
\<close>

theorem crc8_low_28_bits: "crc8 u = crc8 (u AND 0x0FFFFFFF)"
proof -
  have m: "(0x0FFFFFFF :: uint32) = mask 28"
    by (simp add: mask_eq_exp_minus_1)
  have "push_bit 4 u = push_bit 4 (u AND mask 28)"
    by (rule bit_word_eqI) (auto simp add: bit_simps)
  then show ?thesis
    by (simp add: crc8_def m)
qed

section \<open>The gates of Decode\<close>

lemma Sscanf_short: "Sscanf ''240.3.9'' = (3, Some io_ErrUnexpectedEOF, 240, 3, 9, 0)"
  by (simp add: scan_eval)

lemma Sscanf_untagged: "Sscanf ''0.1.128.0'' = (4, None, 0, 1, 128, 0)"
  by (simp add: scan_eval)

lemma crc8_untagged: "crc8 0x00018000 = 0xD5"
  by (simp add: crc8_def crc8_loop.simps)

text \<open>
  C4.  The checks of \<open>Decode\<close> are ordered gates: the scan, the class tag, the checksum,
  the action; the first that fails decides the error alone.  A failed scan gives code -1
  with the scanner's error; a word whose top four bits are not \<open>0xF\<close> gives code -1
  with no wrapped error, whatever its checksum and action are; a tagged word whose
  \<open>crc8\<close> is not \<open>0x80\<close> gives code -2, whatever its action is; a tagged word with the
  right checksum and action 3 gives code -3.
\<close>

theorem Decode_gates_in_order:
  assumes "Sscanf ip = (n, err, o1, o2, o3, o4)"
    and "u = ((push_bit 24 o1 OR push_bit 16 o2) OR push_bit 8 o3) OR o4"
  shows "(n \<noteq> 4 \<longrightarrow> Decode ip = (Result_zero, Some \<lparr>Code = -1, Err = err\<rparr>))
    \<and> (n = 4 \<and> drop_bit 28 u \<noteq> 0xf \<longrightarrow>
         Decode ip = (Result_zero, Some \<lparr>Code = -1, Err = None\<rparr>))
    \<and> (n = 4 \<and> drop_bit 28 u = 0xf \<and> crc8 u \<noteq> 0x80 \<longrightarrow>
         Decode ip = (Result_zero, Some \<lparr>Code = -2, Err = None\<rparr>))
    \<and> (n = 4 \<and> drop_bit 28 u = 0xf \<and> crc8 u = 0x80 \<and> drop_bit 7 (drop_bit 8 u) AND 3 = 3 \<longrightarrow>
         Decode ip = (Result_zero, Some \<lparr>Code = -3, Err = None\<rparr>))"
proof (intro conjI impI)
  assume "n \<noteq> 4"
  then show "Decode ip = (Result_zero, Some \<lparr>Code = -1, Err = err\<rparr>)"
    by (rule Decode_parse_fail [OF assms(1)])
next
  assume "n = 4 \<and> drop_bit 28 u \<noteq> 0xf"
  then show "Decode ip = (Result_zero, Some \<lparr>Code = -1, Err = None\<rparr>)"
    using Decode_bad_tag [OF _ assms(2)] assms(1) by blast
next
  assume "n = 4 \<and> drop_bit 28 u = 0xf \<and> crc8 u \<noteq> 0x80"
  then show "Decode ip = (Result_zero, Some \<lparr>Code = -2, Err = None\<rparr>)"
    using Decode_bad_crc [OF _ assms(2)] assms(1) by blast
next
  assume "n = 4 \<and> drop_bit 28 u = 0xf \<and> crc8 u = 0x80 \<and> drop_bit 7 (drop_bit 8 u) AND 3 = 3"
  then show "Decode ip = (Result_zero, Some \<lparr>Code = -3, Err = None\<rparr>)"
    using Decode_bad_action [OF _ assms(2)] assms(1) by blast
qed

text \<open>
  The four gates at work: "240.3.9" fails the scan; "0.1.128.0" has no tag, a wrong
  checksum and action 3, and is refused for the tag; "255.209.76.40" fails the checksum;
  "241.179.152.73" fails the action.
\<close>

theorem Decode_gates_in_order_witness:
  "Sscanf ''240.3.9'' = (3, Some io_ErrUnexpectedEOF, 240, 3, 9, 0)
   \<and> Decode ''240.3.9'' = (Result_zero, Some \<lparr>Code = -1, Err = Some io_ErrUnexpectedEOF\<rparr>)
   \<and> Sscanf ''0.1.128.0'' = (4, None, 0, 1, 128, 0)
   \<and> drop_bit 28 (0x00018000 :: uint32) \<noteq> 0xf \<and> crc8 0x00018000 \<noteq> 0x80
   \<and> drop_bit 7 (drop_bit 8 (0x00018000 :: uint32)) AND 3 = 3
   \<and> Decode ''0.1.128.0'' = (Result_zero, Some \<lparr>Code = -1, Err = None\<rparr>)
   \<and> crc8 0xFFD14C28 \<noteq> 0x80
   \<and> Decode ''255.209.76.40'' = (Result_zero, Some \<lparr>Code = -2, Err = None\<rparr>)
   \<and> crc8 0xF1B39849 = 0x80 \<and> drop_bit 7 (drop_bit 8 (0xF1B39849 :: uint32)) AND 3 = 3
   \<and> Decode ''241.179.152.73'' = (Result_zero, Some \<lparr>Code = -3, Err = None\<rparr>)"
  using Decode_gates_in_order [OF Sscanf_short refl]
    Decode_gates_in_order [OF Sscanf_untagged refl]
    Decode_gates_in_order [OF Sscanf_vectors(6) refl]
    Decode_gates_in_order [OF Sscanf_vectors(7) refl]
  by (simp add: Sscanf_short Sscanf_untagged crc8_untagged crc8_vectors)

section \<open>The outcomes of Decode\<close>

lemma mn_bounds:
  fixes x :: uint32
  shows "10 \<le> uint ((x AND 0x7ff) + 10)" and "uint ((x AND 0x7ff) + 10) \<le> 2057"
proof -
  have "x AND 0x7ff \<le> 0x7ff"
    by (rule word_and_le1)
  then have b: "uint (x AND 0x7ff) \<le> 2047"
    by (simp add: word_le_def)
  have nn: "0 \<le> uint (x AND 0x7ff)"
    by simp
  have "uint ((x AND 0x7ff) + 10) = (uint (x AND 0x7ff) + 10) mod 2 ^ 32"
    by (simp add: uint_word_ariths)
  also have "\<dots> = uint (x AND 0x7ff) + 10"
    using b nn by (intro mod_pos_pos_trivial) auto
  finally have e: "uint ((x AND 0x7ff) + 10) = uint (x AND 0x7ff) + 10" .
  show "10 \<le> uint ((x AND 0x7ff) + 10)" using e nn by linarith
  show "uint ((x AND 0x7ff) + 10) \<le> 2057" using e b by linarith
qed

lemma Decode_error_zero: "Decode ip = (r, Some e) \<Longrightarrow> r = Result_zero"
  by (cases ip rule: Decode_cases) auto

lemma Decode_success_fields:
  assumes "Decode ip = (r, None)"
  shows "1 \<le> Month r" "Month r \<le> 12" "0 \<le> DTAI r" "Delta r \<in> {-1, 0, 1}"
    "1971 \<le> Year r" "Year r \<le> 2142" "Year r = 1971 \<Longrightarrow> 11 \<le> Month r"
    "Year r = 2142 \<Longrightarrow> Month r \<le> 6"
proof -
  from assms obtain x :: uint32 and d :: uint32 and y :: uint32 where
    r: "r = \<lparr>Year = 1971 + uint ((x AND 0x7ff) + 10) div 12,
             Month = 1 + uint ((x AND 0x7ff) + 10) mod 12,
             DTAI = uint y,
             Delta = (if d = 0 then 0 else if d = 1 then -1 else if d = 2 then 1 else 0)\<rparr>"
    by (cases ip rule: Decode_cases) auto
  define m where "m = uint ((x AND 0x7ff) + 10)"
  have m: "10 \<le> m" "m \<le> 2057"
    unfolding m_def by (rule mn_bounds)+
  have Y: "Year r = 1971 + m div 12" and M: "Month r = 1 + m mod 12"
    by (simp_all add: r m_def)
  show "1 \<le> Month r" "Month r \<le> 12" using M by simp_all
  show "0 \<le> DTAI r" by (simp add: r)
  show "Delta r \<in> {-1, 0, 1}" by (simp add: r)
  show "1971 \<le> Year r" "Year r \<le> 2142" using Y m by simp_all
  show "11 \<le> Month r" if "Year r = 1971" using that Y M m by presburger
  show "Month r \<le> 6" if "Year r = 2142" using that Y M m by presburger
qed

lemma LookupHost_loop_result:
  "ips \<noteq> [] \<Longrightarrow> \<exists>x\<in>set ips. LookupHost_loop ips st = (x, Decode x)"
proof (induction ips arbitrary: st)
  case Nil
  then show ?case by simp
next
  case (Cons ip ips)
  show ?case
  proof (cases "snd (Decode ip) = None \<or> ips = []")
    case True
    then show ?thesis by (auto split: prod.splits)
  next
    case False
    then obtain x where "x \<in> set ips" "LookupHost_loop ips (ip, Decode ip) = (x, Decode x)"
      using Cons.IH by blast
    with False show ?thesis by (auto split: prod.splits)
  qed
qed

lemma LookupHost_loop_first_success:
  assumes "\<forall>y\<in>set pre. snd (Decode y) \<noteq> None" and "snd (Decode x) = None"
  shows "LookupHost_loop (pre @ x # post) st = (x, fst (Decode x), None)"
  using assms by (induction pre arbitrary: st) (auto split: prod.splits)

lemma LookupHost_loop_all_fail:
  assumes "ips \<noteq> []" and "\<forall>y\<in>set ips. snd (Decode y) \<noteq> None"
  shows "LookupHost_loop ips st = (last ips, Decode (last ips))"
  using assms by (induction ips arbitrary: st) (auto split: prod.splits)

text \<open>
  C9.  A call of \<open>Decode\<close> has one of two outcomes: no error and a result whose month is
  in 1..12, whose dTAI is not negative and whose delta is -1, 0 or +1; or an error and
  the zero result.  What \<open>LookupHost\<close> returns is paired the same way.
\<close>

theorem Decode_outcome_pairing:
  "(case Decode ip of
      (r, None) \<Rightarrow> 1 \<le> Month r \<and> Month r \<le> 12 \<and> 0 \<le> DTAI r \<and> Delta r \<in> {-1, 0, 1}
    | (r, Some e) \<Rightarrow> r = Result_zero)
   \<and> (\<forall>a dr err. LookupHost ctx rs host = Inr (a, dr, err) \<longrightarrow>
        (case err of
           None \<Rightarrow> 1 \<le> Month dr \<and> Month dr \<le> 12 \<and> 0 \<le> DTAI dr \<and> Delta dr \<in> {-1, 0, 1}
         | Some e \<Rightarrow> dr = Result_zero))"
proof (intro conjI allI impI)
  show "case Decode ip of
      (r, None) \<Rightarrow> 1 \<le> Month r \<and> Month r \<le> 12 \<and> 0 \<le> DTAI r \<and> Delta r \<in> {-1, 0, 1}
    | (r, Some e) \<Rightarrow> r = Result_zero"
    using Decode_success_fields(1-4) [of ip] Decode_error_zero [of ip]
    by (simp split: prod.splits option.splits)
next
  fix a dr err
  assume L: "LookupHost ctx rs host = Inr (a, dr, err)"
  show "case err of
           None \<Rightarrow> 1 \<le> Month dr \<and> Month dr \<le> 12 \<and> 0 \<le> DTAI dr \<and> Delta dr \<in> {-1, 0, 1}
         | Some e \<Rightarrow> dr = Result_zero"
  proof (cases ctx)
    case None
    with L show ?thesis by (simp add: LookupHost_def)
  next
    case c: (Some c)
    show ?thesis
    proof (cases rs)
      case None
      with c L show ?thesis by (simp add: LookupHost_def)
    next
      case r: (Some lookup)
      obtain ips lerr where l: "lookup c host = (ips, lerr)"
        by (cases "lookup c host") blast
      show ?thesis
      proof (cases "lerr \<noteq> None \<or> ips = []")
        case True
        with L c r l show ?thesis
          by (auto simp add: LookupHost_def split: if_splits)
      next
        case False
        then obtain x where "LookupHost_loop ips ('''', Result_zero, None) = (x, Decode x)"
          using LookupHost_loop_result by blast
        with False L c r l have D: "Decode x = (dr, err)"
          by (cases "Decode x") (auto simp add: LookupHost_def)
        show ?thesis
        proof (cases err)
          case None
          with D Decode_success_fields(1-4) [of x dr] show ?thesis by simp
        next
          case (Some e)
          with D Decode_error_zero [of x dr e] show ?thesis by simp
        qed
      qed
    qed
  qed
qed

text \<open>
  C10.  On every input that \<open>Decode\<close> accepts, the year is in 1971..2142; in 1971 the
  month is November or December, and in 2142 it is June at the latest: the month field
  0..2047 plus 10 counts months from January 1971.
\<close>

theorem Decode_horizon_range:
  assumes "Decode ip = (r, None)"
  shows "1971 \<le> Year r \<and> Year r \<le> 2142
    \<and> (Year r = 1971 \<longrightarrow> 11 \<le> Month r)
    \<and> (Year r = 2142 \<longrightarrow> Month r \<le> 6)"
  using Decode_success_fields(5-8) [OF assms] by blast

lemma Decode_extremes:
  "Decode ''240.0.0.33'' = (\<lparr>Year = 1971, Month = 11, DTAI = 0, Delta = 0\<rparr>, None)"
  "Decode ''255.254.0.42'' = (\<lparr>Year = 2142, Month = 6, DTAI = 0, Delta = 0\<rparr>, None)"
proof -
  have S: "Sscanf ''240.0.0.33'' = (4, None, 240, 0, 0, 33)"
    "Sscanf ''255.254.0.42'' = (4, None, 255, 254, 0, 42)"
    by (simp_all add: scan_eval)
  have C: "crc8 0xF0000021 = 0x80" "crc8 0xFFFE002A = 0x80"
    by (simp_all add: crc8_def crc8_loop.simps)
  show "Decode ''240.0.0.33'' = (\<lparr>Year = 1971, Month = 11, DTAI = 0, Delta = 0\<rparr>, None)"
    by (simp add: Decode_def S C)
  show "Decode ''255.254.0.42'' = (\<lparr>Year = 2142, Month = 6, DTAI = 0, Delta = 0\<rparr>, None)"
    by (simp add: Decode_def S C)
qed

text \<open>Both ends are reached: November 1971 by "240.0.0.33", June 2142 by "255.254.0.42".\<close>

theorem Decode_horizon_range_witness:
  "Decode ''240.0.0.33'' = (\<lparr>Year = 1971, Month = 11, DTAI = 0, Delta = 0\<rparr>, None)
   \<and> Decode ''255.254.0.42'' = (\<lparr>Year = 2142, Month = 6, DTAI = 0, Delta = 0\<rparr>, None)
   \<and> 1971 \<le> Year (fst (Decode ''240.0.0.33'')) \<and> Year (fst (Decode ''240.0.0.33'')) \<le> 2142
   \<and> 11 \<le> Month (fst (Decode ''240.0.0.33''))
   \<and> 1971 \<le> Year (fst (Decode ''255.254.0.42'')) \<and> Year (fst (Decode ''255.254.0.42'')) \<le> 2142
   \<and> Month (fst (Decode ''255.254.0.42'')) \<le> 6"
  using Decode_horizon_range [OF Decode_extremes(1)] Decode_horizon_range [OF Decode_extremes(2)]
  by (simp add: Decode_extremes)

text \<open>
  The pairing on the resolver of the test "manydecode" and on that of "manyinvalid".
\<close>

theorem Decode_outcome_pairing_witness:
  "LookupHost (Some ()) (Some (\<lambda>c h.
       ([''127.240.133.76'', ''255.209.76.40'', ''241.179.152.73'', ''240.3.9.77''], None)))
     ''leapsecond.utcd.org''
     = Inr (''240.3.9.77'', \<lparr>Year = 1971, Month = 12, DTAI = 9, Delta = 1\<rparr>, None)
   \<and> LookupHost (Some ()) (Some (\<lambda>c h.
       ([''127.240.133.76'', ''255.209.76.40'', ''241.179.152.73''], None)))
     ''leapsecond.utcd.org''
     = Inr (''241.179.152.73'', Result_zero, Some \<lparr>Code = -3, Err = None\<rparr>)
   \<and> Decode ''240.3.9.77'' = (\<lparr>Year = 1971, Month = 12, DTAI = 9, Delta = 1\<rparr>, None)
   \<and> Decode ''255.209.76.40'' = (Result_zero, Some \<lparr>Code = -2, Err = None\<rparr>)"
  using
    Decode_outcome_pairing [of "''240.3.9.77''" "Some ()"
      "Some (\<lambda>c h. ([''127.240.133.76'', ''255.209.76.40'', ''241.179.152.73'', ''240.3.9.77''], None))"
      "''leapsecond.utcd.org''"]
    Decode_outcome_pairing [of "''255.209.76.40''" "Some ()"
      "Some (\<lambda>c h. ([''127.240.133.76'', ''255.209.76.40'', ''241.179.152.73''], None))"
      "''leapsecond.utcd.org''"]
  by (simp add: LookupHost_def Decode_vectors)

section \<open>The resolver: properties\<close>

text \<open>
  C3.  After a successful lookup the candidates are tried in the order of the list.  If
  a candidate decodes and none before it does, the resolver returns that candidate with
  its result and no error, whatever follows it in the list.  If the list is not empty
  and no candidate decodes, the resolver returns the last candidate with the outcome of
  decoding it.
\<close>

theorem LookupHost_first_success_else_last_error:
  assumes "lookup c host = (ips, None)"
  shows "(\<forall>pre x post.
            ips = pre @ x # post \<and> (\<forall>y\<in>set pre. snd (Decode y) \<noteq> None) \<and> snd (Decode x) = None
            \<longrightarrow> LookupHost (Some c) (Some lookup) host = Inr (x, fst (Decode x), None))
    \<and> (ips \<noteq> [] \<and> (\<forall>y\<in>set ips. snd (Decode y) \<noteq> None)
         \<longrightarrow> LookupHost (Some c) (Some lookup) host
             = Inr (last ips, fst (Decode (last ips)), snd (Decode (last ips))))"
proof (intro conjI allI impI)
  fix pre x post
  assume "ips = pre @ x # post \<and> (\<forall>y\<in>set pre. snd (Decode y) \<noteq> None) \<and> snd (Decode x) = None"
  then show "LookupHost (Some c) (Some lookup) host = Inr (x, fst (Decode x), None)"
    using assms by (simp add: LookupHost_def LookupHost_loop_first_success)
next
  assume "ips \<noteq> [] \<and> (\<forall>y\<in>set ips. snd (Decode y) \<noteq> None)"
  then show "LookupHost (Some c) (Some lookup) host
      = Inr (last ips, fst (Decode (last ips)), snd (Decode (last ips)))"
    using assms LookupHost_loop_all_fail [of ips "('''', Result_zero, None)"]
    by (simp add: LookupHost_def)
qed

text \<open>
  A valid candidate between two invalid ones is returned; three invalid candidates give
  the error of the third (the test "manyinvalid").
\<close>

theorem LookupHost_first_success_else_last_error_witness:
  "LookupHost (Some ()) (Some (\<lambda>c h. ([''127.240.133.76'', ''240.3.9.77'', ''255.209.76.40''], None)))
     ''leapsecond.utcd.org''
     = Inr (''240.3.9.77'', \<lparr>Year = 1971, Month = 12, DTAI = 9, Delta = 1\<rparr>, None)
   \<and> LookupHost (Some ()) (Some (\<lambda>c h.
       ([''127.240.133.76'', ''255.209.76.40'', ''241.179.152.73''], None)))
     ''leapsecond.utcd.org''
     = Inr (''241.179.152.73'', Result_zero, Some \<lparr>Code = -3, Err = None\<rparr>)"
proof -
  let ?l1 = "\<lambda>(c :: unit) (h :: string).
    ([''127.240.133.76'', ''240.3.9.77'', ''255.209.76.40''], None :: go_error option)"
  let ?l2 = "\<lambda>(c :: unit) (h :: string).
    ([''127.240.133.76'', ''255.209.76.40'', ''241.179.152.73''], None :: go_error option)"
  have a: "[''127.240.133.76'', ''240.3.9.77'', ''255.209.76.40'']
      = [''127.240.133.76''] @ ''240.3.9.77'' # [''255.209.76.40'']
    \<and> (\<forall>y\<in>set [''127.240.133.76'']. snd (Decode y) \<noteq> None)
    \<and> snd (Decode ''240.3.9.77'') = None"
    by (simp add: Decode_vectors)
  have b: "[''127.240.133.76'', ''255.209.76.40'', ''241.179.152.73''] \<noteq> []
    \<and> (\<forall>y\<in>set [''127.240.133.76'', ''255.209.76.40'', ''241.179.152.73''].
          snd (Decode y) \<noteq> None)"
    by (simp add: Decode_vectors)
  from LookupHost_first_success_else_last_error [of ?l1 "()" "''leapsecond.utcd.org''"
      "[''127.240.133.76'', ''240.3.9.77'', ''255.209.76.40'']", OF refl] a
  have "LookupHost (Some ()) (Some ?l1) ''leapsecond.utcd.org''
      = Inr (''240.3.9.77'', fst (Decode ''240.3.9.77''), None)"
    by blast
  moreover from LookupHost_first_success_else_last_error [of ?l2 "()" "''leapsecond.utcd.org''"
      "[''127.240.133.76'', ''255.209.76.40'', ''241.179.152.73'']", OF refl] b
  have "LookupHost (Some ()) (Some ?l2) ''leapsecond.utcd.org''
      = Inr (last [''127.240.133.76'', ''255.209.76.40'', ''241.179.152.73''],
          fst (Decode (last [''127.240.133.76'', ''255.209.76.40'', ''241.179.152.73''])),
          snd (Decode (last [''127.240.133.76'', ''255.209.76.40'', ''241.179.152.73''])))"
    by blast
  ultimately show ?thesis
    by (simp add: Decode_vectors)
qed

text \<open>
  C8.  If the lookup fails, the resolver returns the lookup-failed error (code -10) that
  wraps the cause, whatever addresses came with the failure; if the lookup succeeds with
  no address, it returns the empty-response error (code -11).  In both cases the address
  is empty and the result is the zero result: nothing was decoded.
\<close>

theorem LookupHost_failed_or_empty:
  "(lookup c host = (ips, Some e) \<longrightarrow>
      LookupHost (Some c) (Some lookup) host
        = Inr ('''', Result_zero, Some \<lparr>Code = -10, Err = Some e\<rparr>))
   \<and> (lookup c host = ([], None) \<longrightarrow>
      LookupHost (Some c) (Some lookup) host
        = Inr ('''', Result_zero, Some \<lparr>Code = -11, Err = None\<rparr>))"
  by (simp add: LookupHost_def)

text \<open>
  The tests "failedlookup" (here with a decodable address beside the error) and
  "emptyresponse".
\<close>

theorem LookupHost_failed_or_empty_witness:
  "LookupHost (Some ()) (Some (\<lambda>c h. ([''240.3.9.77''], Some (resolverError ''some lookup error''))))
     ''leapsecond.utcd.org''
     = Inr ('''', Result_zero,
         Some \<lparr>Code = -10, Err = Some (resolverError ''some lookup error'')\<rparr>)
   \<and> LookupHost (Some ()) (Some (\<lambda>c h. ([], None))) ''leapsecond.utcd.org''
     = Inr ('''', Result_zero, Some \<lparr>Code = -11, Err = None\<rparr>)"
  using
    LookupHost_failed_or_empty [of
      "\<lambda>c h. ([''240.3.9.77''], Some (resolverError ''some lookup error''))" "()"
      "''leapsecond.utcd.org''" "[''240.3.9.77'']" "resolverError ''some lookup error''"]
    LookupHost_failed_or_empty [of "\<lambda>c h. ([], None)" "()" "''leapsecond.utcd.org''"]
  by simp

section \<open>Scanning well-formed text\<close>

lemma digit_byte:
  assumes "c \<in> set decimalDigits"
  shows "48 \<le> (of_char c :: nat)" "(of_char c :: nat) \<le> 57"
  using assms by (auto simp add: decimalDigits_def)

lemma byte_not_space:
  assumes "48 \<le> (of_char c :: nat)" "(of_char c :: nat) \<le> 57"
  shows "space_width (c # s) = 0"
  using assms by (simp add: space_width_def space_utf8_def)

lemma digit_not_newline:
  assumes "c \<in> set decimalDigits"
  shows "c \<noteq> CHR 0x0D" "c \<noteq> CHR 0x0A"
  using assms by (auto simp add: decimalDigits_def)

lemma SkipSpace_digit: "c \<in> set decimalDigits \<Longrightarrow> SkipSpace (c # s) = Inr (c # s)"
  by (subst SkipSpace.simps) (simp add: digit_not_newline byte_not_space digit_byte)

lemma scanUint_digits:
  assumes "d \<noteq> []" and "set d \<subseteq> set decimalDigits"
    and "rest = [] \<or> hd rest \<notin> set decimalDigits"
    and "token_value d < 2 ^ 32"
  shows "scanUint (d @ rest) = Inr (of_nat (token_value d), rest)"
proof -
  from assms(1) obtain c cs where d: "d = c # cs" by (cases d) auto
  with assms(2) have c: "c \<in> set decimalDigits" by simp
  have S: "SkipSpace (d @ rest) = Inr (d @ rest)"
    using SkipSpace_digit [OF c] by (simp add: d)
  have r: "takeWhile (\<lambda>c. c \<in> set decimalDigits) rest = []"
    using assms(3) by (cases rest) auto
  have T: "takeWhile (\<lambda>c. c \<in> set decimalDigits) (d @ rest) = d"
    using assms(2) r by (simp add: subset_iff)
  have r': "dropWhile (\<lambda>c. c \<in> set decimalDigits) rest = rest"
    using assms(3) by (cases rest) auto
  have D: "dropWhile (\<lambda>c. c \<in> set decimalDigits) (d @ rest) = rest"
    using assms(2) r' by (simp add: subset_iff)
  have lt: "\<not> (2 :: nat) ^ 64 \<le> token_value d" "\<not> (2 :: nat) ^ 32 \<le> token_value d"
    using assms(4) by simp_all
  have ne: "d @ rest \<noteq> []"
    using assms(1) by simp
  show ?thesis
    unfolding scanUint_def S using assms(1) lt ne
    by (simp only: sum.case Let_def T D if_False simp_thms)
qed

lemma literal_dot_dot: "literal_dot (CHR ''.'' # s) = Inr s"
  by (simp add: literal_dot_def)

lemma Sscanf_dotted:
  assumes "d1 \<noteq> [] \<and> set d1 \<subseteq> set decimalDigits \<and> token_value d1 < 2 ^ 32"
    and "d2 \<noteq> [] \<and> set d2 \<subseteq> set decimalDigits \<and> token_value d2 < 2 ^ 32"
    and "d3 \<noteq> [] \<and> set d3 \<subseteq> set decimalDigits \<and> token_value d3 < 2 ^ 32"
    and "d4 \<noteq> [] \<and> set d4 \<subseteq> set decimalDigits \<and> token_value d4 < 2 ^ 32"
    and "rest = [] \<or> hd rest \<notin> set decimalDigits"
  shows "Sscanf (d1 @ CHR ''.'' # d2 @ CHR ''.'' # d3 @ CHR ''.'' # d4 @ rest) =
    (4, None, of_nat (token_value d1), of_nat (token_value d2),
     of_nat (token_value d3), of_nat (token_value d4))"
proof -
  have nd: "CHR ''.'' # s = [] \<or> hd (CHR ''.'' # s) \<notin> set decimalDigits" for s
    by (simp add: decimalDigits_def)
  have 1: "scanUint (d1 @ CHR ''.'' # d2 @ CHR ''.'' # d3 @ CHR ''.'' # d4 @ rest)
      = Inr (of_nat (token_value d1), CHR ''.'' # d2 @ CHR ''.'' # d3 @ CHR ''.'' # d4 @ rest)"
    using assms(1) nd by (intro scanUint_digits) blast+
  have 2: "scanUint (d2 @ CHR ''.'' # d3 @ CHR ''.'' # d4 @ rest)
      = Inr (of_nat (token_value d2), CHR ''.'' # d3 @ CHR ''.'' # d4 @ rest)"
    using assms(2) nd by (intro scanUint_digits) blast+
  have 3: "scanUint (d3 @ CHR ''.'' # d4 @ rest)
      = Inr (of_nat (token_value d3), CHR ''.'' # d4 @ rest)"
    using assms(3) nd by (intro scanUint_digits) blast+
  have 4: "scanUint (d4 @ rest) = Inr (of_nat (token_value d4), rest)"
    using assms(4,5) by (intro scanUint_digits) blast+
  show ?thesis
    unfolding Sscanf_def
    by (simp only: 1 2 3 4 literal_dot_dot sum.case prod.case)
qed

lemma digit_value:
  assumes "k < 10"
  shows "(of_char (decimalDigits ! k) :: nat) - 48 = k"
    and "decimalDigits ! k \<in> set decimalDigits"
proof -
  from assms have "k = 0 \<or> k = 1 \<or> k = 2 \<or> k = 3 \<or> k = 4 \<or> k = 5 \<or> k = 6 \<or> k = 7 \<or> k = 8 \<or> k = 9"
    by arith
  then show "(of_char (decimalDigits ! k) :: nat) - 48 = k"
    by (elim disjE) (simp_all add: decimalDigits_def)
  show "decimalDigits ! k \<in> set decimalDigits"
    using assms by (intro nth_mem) (simp add: decimalDigits_def)
qed

lemma token_value_snoc:
  "token_value (xs @ [c]) = token_value xs * 10 + (of_char c - of_char CHR ''0'')"
  by (simp add: token_value_def)

lemma decimal_digits: "decimal n \<noteq> [] \<and> set (decimal n) \<subseteq> set decimalDigits"
proof (induction n rule: decimal.induct)
  case (1 n)
  show ?case
  proof (cases "n < 10")
    case True
    then show ?thesis
      by (subst (1 2) decimal.simps) (simp add: digit_value(2))
  next
    case False
    with 1 show ?thesis
      by (subst (1 2) decimal.simps) (simp add: digit_value(2))
  qed
qed

lemma token_value_decimal: "token_value (decimal n) = n"
proof (induction n rule: decimal.induct)
  case (1 n)
  show ?case
  proof (cases "n < 10")
    case True
    then show ?thesis
      by (subst decimal.simps) (simp add: token_value_def digit_value(1))
  next
    case False
    with 1 have "token_value (decimal (n div 10)) = n div 10" by simp
    with False show ?thesis
      by (subst decimal.simps) (simp add: token_value_snoc digit_value(1))
  qed
qed

lemma decimal_number:
  fixes w :: uint32
  shows "decimal (unat w) \<noteq> [] \<and> set (decimal (unat w)) \<subseteq> set decimalDigits
    \<and> token_value (decimal (unat w)) < 2 ^ 32"
proof -
  have "unat w < 2 ^ 32"
    using unsigned_less [of w] by simp
  then show ?thesis
    by (simp add: decimal_digits token_value_decimal)
qed

lemma Sscanf_dotted_quad:
  "Sscanf (dotted_quad u) =
     (4, None, drop_bit 24 u, drop_bit 16 u AND 0xff, drop_bit 8 u AND 0xff, u AND 0xff)"
proof -
  have "Sscanf (decimal (unat (drop_bit 24 u)) @ CHR ''.'' #
                decimal (unat (drop_bit 16 u AND 0xff)) @ CHR ''.'' #
                decimal (unat (drop_bit 8 u AND 0xff)) @ CHR ''.'' #
                decimal (unat (u AND 0xff)) @ [])
      = (4, None, of_nat (token_value (decimal (unat (drop_bit 24 u)))),
         of_nat (token_value (decimal (unat (drop_bit 16 u AND 0xff)))),
         of_nat (token_value (decimal (unat (drop_bit 8 u AND 0xff)))),
         of_nat (token_value (decimal (unat (u AND 0xff)))))"
    by (intro Sscanf_dotted decimal_number) simp
  then show ?thesis
    by (simp add: dotted_quad_def token_value_decimal)
qed

lemma quad_reassembled:
  fixes u :: uint32
  shows "((push_bit 24 (drop_bit 24 u) OR push_bit 16 (drop_bit 16 u AND 0xff))
          OR push_bit 8 (drop_bit 8 u AND 0xff)) OR (u AND 0xff) = u"
proof -
  have m: "(0xff :: uint32) = mask 8"
    by (simp add: mask_eq_exp_minus_1)
  show ?thesis
    unfolding m
  proof (rule bit_word_eqI)
    fix n
    assume n: "n < LENGTH(32)"
    consider "n < 8" | "8 \<le> n" "n < 16" | "16 \<le> n" "n < 24" | "24 \<le> n"
      by linarith
    then show "bit (((push_bit 24 (drop_bit 24 u) OR push_bit 16 (drop_bit 16 u AND mask 8))
          OR push_bit 8 (drop_bit 8 u AND mask 8)) OR (u AND mask 8)) n = bit u n"
      using n by cases (auto simp add: bit_simps)
  qed
qed

lemma Decode_dotted_quad:
  assumes "drop_bit 28 u = 0xf" and "crc8 u = 0x80"
    and "d = drop_bit 7 (drop_bit 8 u) AND 3" and "d \<noteq> 3"
    and "mn = (drop_bit 2 (drop_bit 7 (drop_bit 8 u)) AND 0x7ff) + 10"
  shows "Decode (dotted_quad u) =
    (\<lparr>Year = 1971 + uint mn div 12, Month = 1 + uint mn mod 12,
      DTAI = uint (drop_bit 8 u AND 0x7f),
      Delta = (if d = 0 then 0 else if d = 1 then -1 else if d = 2 then 1 else 0)\<rparr>, None)"
  by (rule Decode_ok [OF Sscanf_dotted_quad quad_reassembled [symmetric] assms])

lemma mask_numerals:
  "(0xF :: uint32) = mask 4" "(0x7f :: uint32) = mask 7" "(3 :: uint32) = mask 2"
  "(0x7ff :: uint32) = mask 11"
  by (simp_all add: mask_eq_exp_minus_1)

lemma layout_fields:
  fixes M A T c :: uint32
  defines "u \<equiv> (push_bit 28 (mask 4) OR push_bit 17 (take_bit 11 M) OR push_bit 15 (take_bit 2 A)
                  OR push_bit 8 (take_bit 7 T)) OR take_bit 8 c"
  shows "drop_bit 28 u = mask 4"
    and "drop_bit 8 u AND mask 7 = take_bit 7 T"
    and "drop_bit 7 (drop_bit 8 u) AND mask 2 = take_bit 2 A"
    and "drop_bit 2 (drop_bit 7 (drop_bit 8 u)) AND mask 11 = take_bit 11 M"
proof -
  show "drop_bit 28 u = mask 4"
    unfolding u_def by (rule bit_word_eqI) (auto simp add: bit_simps)
  show "drop_bit 8 u AND mask 7 = take_bit 7 T"
    unfolding u_def by (rule bit_word_eqI) (auto simp add: bit_simps)
  show "drop_bit 7 (drop_bit 8 u) AND mask 2 = take_bit 2 A"
    unfolding u_def by (rule bit_word_eqI) (auto simp add: bit_simps)
  show "drop_bit 2 (drop_bit 7 (drop_bit 8 u)) AND mask 11 = take_bit 11 M"
    unfolding u_def by (rule bit_word_eqI) (auto simp add: bit_simps)
qed

section \<open>The checksum is linear in the message\<close>

lemma top_bit_test: "(x AND push_bit 31 1 \<noteq> 0) = bit x 31" for x :: uint32
  unfolding push_bit_of_1 by (simp only: and_exp_eq_0_iff_not_bit simp_thms)

lemma crc8_step_xor:
  fixes a b :: uint32
  shows "push_bit 1 (if (a XOR b) AND push_bit 31 1 \<noteq> 0 then (a XOR b) XOR push_bit 23 0x12f
                     else a XOR b)
    = push_bit 1 (if a AND push_bit 31 1 \<noteq> 0 then a XOR push_bit 23 0x12f else a)
      XOR push_bit 1 (if b AND push_bit 31 1 \<noteq> 0 then b XOR push_bit 23 0x12f else b)"
proof -
  define p :: uint32 where "p = push_bit 23 0x12f"
  have both: "push_bit 1 (a XOR b) = push_bit 1 (a XOR p) XOR push_bit 1 (b XOR p)"
    by (rule bit_word_eqI) (auto simp add: bit_simps)
  have left: "push_bit 1 ((a XOR b) XOR p) = push_bit 1 (a XOR p) XOR push_bit 1 b"
    by (rule bit_word_eqI) (auto simp add: bit_simps)
  have right: "push_bit 1 ((a XOR b) XOR p) = push_bit 1 a XOR push_bit 1 (b XOR p)"
    by (rule bit_word_eqI) (auto simp add: bit_simps)
  have none: "push_bit 1 (a XOR b) = push_bit 1 a XOR push_bit 1 b"
    by (rule bit_word_eqI) (auto simp add: bit_simps)
  show ?thesis
    unfolding top_bit_test p_def [symmetric]
  proof (cases "bit a 31")
    case a: True
    show "push_bit 1 (if bit (a XOR b) 31 then (a XOR b) XOR p else a XOR b)
      = push_bit 1 (if bit a 31 then a XOR p else a) XOR push_bit 1 (if bit b 31 then b XOR p else b)"
    proof (cases "bit b 31")
      case True
      with a both show ?thesis by (simp only: bit_xor_iff if_True if_False simp_thms)
    next
      case False
      with a left show ?thesis by (simp only: bit_xor_iff if_True if_False simp_thms)
    qed
  next
    case a: False
    show "push_bit 1 (if bit (a XOR b) 31 then (a XOR b) XOR p else a XOR b)
      = push_bit 1 (if bit a 31 then a XOR p else a) XOR push_bit 1 (if bit b 31 then b XOR p else b)"
    proof (cases "bit b 31")
      case True
      with a right show ?thesis by (simp only: bit_xor_iff if_True if_False simp_thms)
    next
      case False
      with a none show ?thesis by (simp only: bit_xor_iff if_True if_False simp_thms)
    qed
  qed
qed

lemma crc8_loop_xor: "crc8_loop i (a XOR b) = crc8_loop i a XOR crc8_loop i b"
proof (induction "28 - i" arbitrary: i a b)
  case 0
  then have "\<not> i < 28" by simp
  then show ?case
    by (subst (1 2 3) crc8_loop.simps) simp
next
  case (Suc n)
  then have i: "i < 28" and n: "n = 28 - (i + 1)" by simp_all
  show ?case
    by (subst (1 2 3) crc8_loop.simps) (simp only: i if_True crc8_step_xor Suc.hyps(1) [OF n])
qed

lemma crc8_xor: "crc8 (w XOR c) = crc8 w XOR drop_bit 24 (crc8_loop 0 (push_bit 4 c))"
proof -
  have "0x54a9abf8 XOR push_bit 4 (w XOR c) = (0x54a9abf8 XOR push_bit 4 w) XOR push_bit 4 c"
    by (simp add: push_bit_xor ac_simps)
  then show ?thesis
    by (simp add: crc8_def crc8_loop_xor)
qed

lemma crc8_loop_zero: "crc8_loop 0 0 = 0"
  by (simp add: crc8_loop.simps)

lemma crc8_basis:
  "drop_bit 24 (crc8_loop 0 (push_bit 4 134)) = push_bit 0 1"
  "drop_bit 24 (crc8_loop 0 (push_bit 4 35)) = push_bit (Suc 0) 1"
  "drop_bit 24 (crc8_loop 0 (push_bit 4 70)) = push_bit (Suc (Suc 0)) 1"
  "drop_bit 24 (crc8_loop 0 (push_bit 4 140)) = push_bit (Suc (Suc (Suc 0))) 1"
  "drop_bit 24 (crc8_loop 0 (push_bit 4 55)) = push_bit (Suc (Suc (Suc (Suc 0)))) 1"
  "drop_bit 24 (crc8_loop 0 (push_bit 4 110)) = push_bit (Suc (Suc (Suc (Suc (Suc 0))))) 1"
  "drop_bit 24 (crc8_loop 0 (push_bit 4 220)) = push_bit (Suc (Suc (Suc (Suc (Suc (Suc 0)))))) 1"
  "drop_bit 24 (crc8_loop 0 (push_bit 4 151))
     = push_bit (Suc (Suc (Suc (Suc (Suc (Suc (Suc 0))))))) 1"
  by (simp_all add: crc8_loop.simps)

text \<open>
  The last eight message bits reach every checksum: bit by bit, from the eight bytes of
  \<open>crc8_basis\<close>.
\<close>

lemma crc8_reach_step:
  assumes IH: "\<And>t :: uint32. take_bit k t = t \<Longrightarrow>
      \<exists>c. take_bit 8 c = c \<and> drop_bit 24 (crc8_loop 0 (push_bit 4 c)) = t"
    and h: "take_bit 8 h = h" "drop_bit 24 (crc8_loop 0 (push_bit 4 h)) = push_bit k 1"
    and t: "take_bit (Suc k) t = t"
  shows "\<exists>c. take_bit 8 c = c \<and> drop_bit 24 (crc8_loop 0 (push_bit 4 c)) = t"
proof (cases "bit t k")
  case False
  have "take_bit k t = t"
  proof (rule bit_word_eqI)
    fix n
    assume "n < LENGTH(32)"
    have "bit t n \<Longrightarrow> n < Suc k"
      using t by (metis bit_take_bit_iff)
    with False show "bit (take_bit k t) n = bit t n"
      by (cases "n = k") (auto simp add: bit_simps)
  qed
  then show ?thesis by (rule IH)
next
  case True
  have "take_bit k (t XOR push_bit k 1) = t XOR push_bit k 1"
  proof (rule bit_word_eqI)
    fix n
    assume n: "n < LENGTH(32)"
    have "bit t n \<Longrightarrow> n < Suc k"
      using t by (metis bit_take_bit_iff)
    with True n show "bit (take_bit k (t XOR push_bit k 1)) n = bit (t XOR push_bit k 1) n"
      by (cases "n = k") (auto simp add: bit_simps)
  qed
  then obtain c where c: "take_bit 8 c = c"
      "drop_bit 24 (crc8_loop 0 (push_bit 4 c)) = t XOR push_bit k 1"
    using IH by blast
  have "take_bit 8 (c XOR h) = c XOR h"
    using c(1) h(1) by simp
  moreover have "drop_bit 24 (crc8_loop 0 (push_bit 4 (c XOR h))) = t"
  proof -
    have "drop_bit 24 (crc8_loop 0 (push_bit 4 (c XOR h)))
        = drop_bit 24 (crc8_loop 0 (push_bit 4 c)) XOR drop_bit 24 (crc8_loop 0 (push_bit 4 h))"
      by (simp add: crc8_loop_xor)
    also have "\<dots> = t"
      unfolding c(2) h(2) by (rule bit_word_eqI) (auto simp add: bit_simps)
    finally show ?thesis .
  qed
  ultimately show ?thesis by blast
qed

lemma crc8_reach:
  fixes t :: uint32
  assumes "take_bit 8 t = t"
  shows "\<exists>c. take_bit 8 c = c \<and> drop_bit 24 (crc8_loop 0 (push_bit 4 c)) = t"
proof -
  have b: "take_bit 8 (x :: uint32) = x" if "x \<in> {134, 35, 70, 140, 55, 110, 220, 151}" for x
    using that by auto
  have 0: "\<exists>c. take_bit 8 c = c \<and> drop_bit 24 (crc8_loop 0 (push_bit 4 c)) = t"
    if "take_bit 0 t = t" for t :: uint32
    using that crc8_loop_zero by (intro exI [of _ 0]) simp
  note 1 = crc8_reach_step [OF 0 b crc8_basis(1), simplified]
  note 2 = crc8_reach_step [OF 1 b crc8_basis(2), simplified]
  note 3 = crc8_reach_step [OF 2 b crc8_basis(3), simplified]
  note 4 = crc8_reach_step [OF 3 b crc8_basis(4), simplified]
  note 5 = crc8_reach_step [OF 4 b crc8_basis(5), simplified]
  note 6 = crc8_reach_step [OF 5 b crc8_basis(6), simplified]
  note 7 = crc8_reach_step [OF 6 b crc8_basis(7), simplified]
  note 8 = crc8_reach_step [OF 7 b crc8_basis(8), simplified]
  have "take_bit (Suc (Suc (Suc (Suc (Suc (Suc (Suc (Suc 0)))))))) t = t"
    using assms by (simp add: eval_nat_numeral)
  then show ?thesis by (rule 8)
qed

section \<open>The round trip\<close>

lemma uint_small: "0 \<le> k \<Longrightarrow> k < 2 ^ 32 \<Longrightarrow> uint (word_of_int k :: uint32) = k"
  by (simp add: uint_word_of_int_eq take_bit_int_eq_self)

lemma month_field_value:
  assumes "0 \<le> k" "k < 2048"
  shows "uint (take_bit 11 (word_of_int k :: uint32) + 10) = k + 10"
proof -
  have "take_bit 11 (word_of_int k :: uint32) = word_of_int k"
    using assms
    by (intro word_uint_eqI) (simp add: unsigned_take_bit_eq uint_word_of_int_eq take_bit_int_eq_self)
  moreover have "(word_of_int k :: uint32) + 10 = word_of_int (k + 10)"
    by simp
  moreover have "uint (word_of_int (k + 10) :: uint32) = k + 10"
    using assms by (intro uint_small) simp_all
  ultimately show ?thesis
    by simp
qed

lemma dtai_field_value:
  assumes "0 \<le> k" "k \<le> 127"
  shows "uint (take_bit 7 (word_of_int k :: uint32)) = k"
  using assms by (simp add: unsigned_take_bit_eq uint_word_of_int_eq take_bit_int_eq_self)

lemma action_field_value:
  assumes "delta \<in> {-1, 0, 1}"
  shows "take_bit 2 (action_code delta) \<noteq> 3"
    and "(if take_bit 2 (action_code delta) = 0 then 0
          else if take_bit 2 (action_code delta) = 1 then -1
          else if take_bit 2 (action_code delta) = 2 then 1 else 0) = delta"
  using assms by (auto simp add: action_code_def)

lemma byte_in_range:
  fixes c :: uint32
  shows "c \<in> set (map of_nat [0 ..< 256]) \<longleftrightarrow> take_bit 8 c = c"
proof
  assume "c \<in> set (map of_nat [0 ..< 256])"
  then obtain n :: nat where n: "n < 256" "c = of_nat n" by auto
  have "take_bit 8 n = n"
    using n(1) by (simp add: take_bit_nat_eq_self)
  then show "take_bit 8 c = c"
    unfolding n(2) by (simp only: take_bit_of_nat)
next
  assume "take_bit 8 c = c"
  then have "unat c = take_bit 8 (unat c)"
    by (metis unsigned_take_bit_eq)
  moreover have "take_bit 8 (unat c) < 2 ^ 8"
    by (rule take_bit_nat_less_exp)
  ultimately have "unat c < 256"
    by simp
  moreover have "c = of_nat (unat c)"
    by simp
  ultimately have "c \<in> of_nat ` {0 ..< 256}"
    by (intro image_eqI [of _ _ "unat c"]) simp_all
  then show "c \<in> set (map of_nat [0 ..< 256])"
    by simp
qed

lemma crc_byte_Some:
  assumes "crc_byte w = Some c"
  shows "take_bit 8 c = c" and "crc8 (w OR c) = 0x80"
proof -
  from assms have "c \<in> set (map of_nat [0 ..< 256]) \<and> crc8 (w OR c) = 0x80"
    unfolding crc_byte_def find_Some_iff by (metis nth_mem)
  then show "take_bit 8 c = c" and "crc8 (w OR c) = 0x80"
    by (simp_all only: byte_in_range)
qed

lemma crc_byte_exists:
  assumes "take_bit 8 w = 0"
  shows "\<exists>c. crc_byte w = Some c"
proof -
  have "take_bit 8 (crc8 w XOR 0x80) = crc8 w XOR 0x80"
    unfolding crc8_def by (rule bit_word_eqI) (auto simp add: bit_simps dest: bit_imp_le_length)
  then obtain c where c: "take_bit 8 c = c"
      "drop_bit 24 (crc8_loop 0 (push_bit 4 c)) = crc8 w XOR 0x80"
    using crc8_reach by blast
  have "\<not> (bit w n \<and> bit c n)" for n
  proof (cases "n < 8")
    case True
    have "bit (take_bit 8 w) n = bit (0 :: uint32) n"
      by (simp only: assms)
    with True show ?thesis
      by (simp add: bit_take_bit_iff)
  next
    case False
    have "bit (take_bit 8 c) n = bit c n"
      by (simp only: c(1))
    with False show ?thesis
      by (simp add: bit_take_bit_iff)
  qed
  then have "w OR c = w XOR c"
    by (intro bit_word_eqI) (auto simp add: bit_simps)
  then have "crc8 (w OR c) = crc8 w XOR (crc8 w XOR 0x80)"
    by (simp only: crc8_xor c(2))
  also have "\<dots> = 0x80"
    by (rule bit_word_eqI) (auto simp add: bit_simps)
  finally have "crc8 (w OR c) = 0x80" .
  moreover have "c \<in> set (map of_nat [0 ..< 256])"
    using c(1) by (simp only: byte_in_range)
  ultimately have "find (\<lambda>c. crc8 (w OR c) = 0x80) (map of_nat [0 ..< 256]) \<noteq> None"
    unfolding find_None_iff by blast
  then show ?thesis
    by (simp add: crc_byte_def)
qed

lemma encode_fields_low_byte: "take_bit 8 (encode_fields year month dtai delta) = 0"
  unfolding encode_fields_def by (rule bit_word_eqI) (auto simp add: bit_simps)

lemma Decode_encoded:
  assumes c: "take_bit 8 c = c" and crc: "crc8 (encode_fields year month dtai delta OR c) = 0x80"
    and mo: "0 \<le> month_offset year month" "month_offset year month < 2048"
    and dtai: "0 \<le> dtai" "dtai \<le> 127"
    and delta: "delta \<in> {-1, 0, 1}"
  shows "Decode (dotted_quad (encode_fields year month dtai delta OR c)) =
    (\<lparr>Year = 1971 + (month_offset year month + 10) div 12,
      Month = 1 + (month_offset year month + 10) mod 12,
      DTAI = dtai, Delta = delta\<rparr>, None)"
proof -
  define u where "u = encode_fields year month dtai delta OR c"
  have u: "u = (push_bit 28 (mask 4) OR push_bit 17 (take_bit 11 (word_of_int (month_offset year month)))
      OR push_bit 15 (take_bit 2 (action_code delta)) OR push_bit 8 (take_bit 7 (word_of_int dtai)))
      OR take_bit 8 c"
    unfolding u_def encode_fields_def c mask_numerals [symmetric] ..
  have tag: "drop_bit 28 u = 0xf"
    and t: "drop_bit 8 u AND 0x7f = take_bit 7 (word_of_int dtai)"
    and a: "drop_bit 7 (drop_bit 8 u) AND 3 = take_bit 2 (action_code delta)"
    and m: "drop_bit 2 (drop_bit 7 (drop_bit 8 u)) AND 0x7ff
      = take_bit 11 (word_of_int (month_offset year month))"
    unfolding u mask_numerals by (rule layout_fields)+
  have "Decode (dotted_quad u) =
    (\<lparr>Year = 1971 + uint (take_bit 11 (word_of_int (month_offset year month) :: uint32) + 10) div 12,
      Month = 1 + uint (take_bit 11 (word_of_int (month_offset year month) :: uint32) + 10) mod 12,
      DTAI = uint (take_bit 7 (word_of_int dtai :: uint32)),
      Delta = (if take_bit 2 (action_code delta) = 0 then 0
               else if take_bit 2 (action_code delta) = 1 then -1
               else if take_bit 2 (action_code delta) = 2 then 1 else 0)\<rparr>, None)"
    using Decode_dotted_quad [OF tag crc [folded u_def] a [symmetric] _ refl]
      action_field_value(1) [OF delta]
    unfolding t m a by blast
  then show ?thesis
    unfolding u_def
    by (simp only: month_field_value [OF mo] dtai_field_value [OF dtai]
          action_field_value(2) [OF delta])
qed

text \<open>
  C1, as stated, fails: the tuple 1971, January, dTAI 49, delta 0 is in the claimed
  range; its month count is -10, the month field holds 2038, the word is
  \<open>0xFFEC3100\<close> with CRC byte 0, and "255.236.49.0" decodes to September 2141.
\<close>

theorem round_trip_counterexample:
  "encode 1971 1 49 0 = Some 0xFFEC3100
   \<and> dotted_quad 0xFFEC3100 = ''255.236.49.0''
   \<and> Decode ''255.236.49.0'' = (\<lparr>Year = 2141, Month = 9, DTAI = 49, Delta = 0\<rparr>, None)"
proof -
  have f: "encode_fields 1971 1 49 0 = 0xFFEC3100"
    by (simp add: encode_fields_def month_offset_def action_code_def)
  have c: "crc8 0xFFEC3100 = 0x80"
    by (simp add: crc8_def crc8_loop.simps)
  have l: "map of_nat [0 ..< 256] = (0 :: uint32) # map of_nat [1 ..< 256]"
    by (simp add: upt_conv_Cons)
  have e: "encode 1971 1 49 0 = Some 0xFFEC3100"
    unfolding encode_def crc_byte_def f l by (simp add: c)
  have q: "dotted_quad 0xFFEC3100 = ''255.236.49.0''"
    by (simp add: dotted_quad_def decimal.simps decimalDigits_def)
  have S: "Sscanf ''255.236.49.0'' = (4, None, 255, 236, 49, 0)"
    by (simp add: scan_eval)
  have D: "Decode ''255.236.49.0'' = (\<lparr>Year = 2141, Month = 9, DTAI = 49, Delta = 0\<rparr>, None)"
    by (simp add: Decode_def S c)
  from e q D show ?thesis by blast
qed

text \<open>
  C1, amended.  For every tuple with year in 1971..2140, month in 1..12 and not before
  November 1971, dTAI in 0..127 and delta -1, 0 or +1: the encoder finds a CRC byte,
  and \<open>Decode\<close> of the dotted-quad text of the encoded word gives the tuple back.
\<close>

theorem encode_Decode_round_trip:
  assumes "1971 \<le> year" "year \<le> 2140" "1 \<le> month" "month \<le> 12"
    and "year = 1971 \<longrightarrow> 11 \<le> month"
    and "0 \<le> dtai" "dtai \<le> 127" and "delta \<in> {-1, 0, 1}"
  shows "\<exists>u. encode year month dtai delta = Some u
    \<and> Decode (dotted_quad u) = (\<lparr>Year = year, Month = month, DTAI = dtai, Delta = delta\<rparr>, None)"
proof -
  obtain c where c: "crc_byte (encode_fields year month dtai delta) = Some c"
    using crc_byte_exists [OF encode_fields_low_byte] by blast
  have mo: "0 \<le> month_offset year month" "month_offset year month < 2048"
    using assms(1-5) by (auto simp add: month_offset_def)
  have y: "1971 + (month_offset year month + 10) div 12 = year"
    and m: "1 + (month_offset year month + 10) mod 12 = month"
    using assms(1-4) unfolding month_offset_def by presburger+
  have "Decode (dotted_quad (encode_fields year month dtai delta OR c)) =
    (\<lparr>Year = year, Month = month, DTAI = dtai, Delta = delta\<rparr>, None)"
    using Decode_encoded [OF crc_byte_Some [OF c] mo assms(6-8)] by (simp only: y m)
  moreover have "encode year month dtai delta = Some (encode_fields year month dtai delta OR c)"
    by (simp add: encode_def c)
  ultimately show ?thesis by blast
qed

text \<open>The tuple 1971, December, 9, +1 of the first reference vector.\<close>

theorem encode_Decode_round_trip_witness:
  "\<exists>u. encode 1971 12 9 1 = Some u
    \<and> Decode (dotted_quad u) = (\<lparr>Year = 1971, Month = 12, DTAI = 9, Delta = 1\<rparr>, None)"
  using encode_Decode_round_trip [of 1971 12 9 1] by simp

section \<open>The parse gate\<close>

lemma Sscanf_cases:
  obtains (fail) n e o1 o2 o3 o4 where
      "Sscanf ip = (n, Some e, o1, o2, o3, o4)" "n \<noteq> 4"
  | (pass) o1 r1 s1 o2 r2 s2 o3 r3 s3 o4 r4 where
      "scanUint ip = Inr (o1, r1)" "literal_dot r1 = Inr s1"
      "scanUint s1 = Inr (o2, r2)" "literal_dot r2 = Inr s2"
      "scanUint s2 = Inr (o3, r3)" "literal_dot r3 = Inr s3"
      "scanUint s3 = Inr (o4, r4)"
      "Sscanf ip = (4, None, o1, o2, o3, o4)"
proof (cases "scanUint ip")
  case (Inl e)
  then show thesis by (intro fail [of 0 e 0 0 0 0]) (simp_all add: Sscanf_def)
next
  case (Inr p1)
  then obtain o1 r1 where 1: "scanUint ip = Inr (o1, r1)" by (cases p1) simp
  show thesis
  proof (cases "literal_dot r1")
    case (Inl e)
    with 1 show thesis by (intro fail [of 1 e o1 0 0 0]) (simp_all add: Sscanf_def)
  next
    case 2: (Inr s1)
    show thesis
    proof (cases "scanUint s1")
      case (Inl e)
      with 1 2 show thesis by (intro fail [of 1 e o1 0 0 0]) (simp_all add: Sscanf_def)
    next
      case (Inr p2)
      then obtain o2 r2 where 3: "scanUint s1 = Inr (o2, r2)" by (cases p2) simp
      show thesis
      proof (cases "literal_dot r2")
        case (Inl e)
        with 1 2 3 show thesis by (intro fail [of 2 e o1 o2 0 0]) (simp_all add: Sscanf_def)
      next
        case 4: (Inr s2)
        show thesis
        proof (cases "scanUint s2")
          case (Inl e)
          with 1 2 3 4 show thesis
            by (intro fail [of 2 e o1 o2 0 0]) (simp_all add: Sscanf_def)
        next
          case (Inr p3)
          then obtain o3 r3 where 5: "scanUint s2 = Inr (o3, r3)" by (cases p3) simp
          show thesis
          proof (cases "literal_dot r3")
            case (Inl e)
            with 1 2 3 4 5 show thesis
              by (intro fail [of 3 e o1 o2 o3 0]) (simp_all add: Sscanf_def)
          next
            case 6: (Inr s3)
            show thesis
            proof (cases "scanUint s3")
              case (Inl e)
              with 1 2 3 4 5 6 show thesis
                by (intro fail [of 3 e o1 o2 o3 0]) (simp_all add: Sscanf_def)
            next
              case (Inr p4)
              then obtain o4 r4 where 7: "scanUint s3 = Inr (o4, r4)" by (cases p4) simp
              show thesis
                by (rule pass [OF 1 2 3 4 5 6 7]) (simp add: Sscanf_def 1 2 3 4 5 6 7)
            qed
          qed
        qed
      qed
    qed
  qed
qed

lemma Sscanf_fail_error:
  assumes "fst (Sscanf ip) \<noteq> 4"
  shows "\<exists>e. fst (snd (Sscanf ip)) = Some e"
  using assms by (cases ip rule: Sscanf_cases) simp_all

lemma Sscanf_trailing: "Sscanf ''240.3.9.77xyz'' = (4, None, 240, 3, 9, 77)"
  by (simp add: scan_eval)

lemma Sscanf_leading: "Sscanf '' 240.3.9.77'' = (4, None, 240, 3, 9, 77)"
  by (simp add: scan_eval)

text \<open>
  C7, as stated, fails in its second half: "240.3.9.77xyz" is not four dot-separated
  integers, and neither is " 240.3.9.77", yet both pass the scan, and \<open>Decode\<close> accepts
  them.
\<close>

theorem parse_gate_counterexample:
  "\<not> four_dotted_integers ''240.3.9.77xyz''
   \<and> fst (Sscanf ''240.3.9.77xyz'') = 4
   \<and> Decode ''240.3.9.77xyz'' = (\<lparr>Year = 1971, Month = 12, DTAI = 9, Delta = 1\<rparr>, None)
   \<and> \<not> four_dotted_integers '' 240.3.9.77''
   \<and> fst (Sscanf '' 240.3.9.77'') = 4
   \<and> Decode '' 240.3.9.77'' = (\<lparr>Year = 1971, Month = 12, DTAI = 9, Delta = 1\<rparr>, None)"
proof -
  have "\<not> four_dotted_integers ''240.3.9.77xyz''" "\<not> four_dotted_integers '' 240.3.9.77''"
    by (simp_all add: four_dotted_integers_def decimalDigits_def)
  moreover have "Decode ''240.3.9.77xyz'' = (\<lparr>Year = 1971, Month = 12, DTAI = 9, Delta = 1\<rparr>, None)"
    by (simp add: Decode_def Sscanf_trailing crc8_vectors)
  moreover have "Decode '' 240.3.9.77'' = (\<lparr>Year = 1971, Month = 12, DTAI = 9, Delta = 1\<rparr>, None)"
    by (simp add: Decode_def Sscanf_leading crc8_vectors)
  ultimately show ?thesis
    by (simp add: Sscanf_trailing Sscanf_leading)
qed

lemma space_utf8_prefix_free:
  "\<forall>a\<in>set space_utf8. \<forall>b\<in>set space_utf8. take (length a) b = a \<longrightarrow> a = b"
  by (simp add: space_utf8_def)

lemma space_width_take:
  assumes "0 < space_width s"
  shows "space_width s \<le> length s"
    and "space_width (take (space_width s) s @ t) = space_width s"
proof -
  let ?bs = "map of_char s :: nat list"
  let ?P = "\<lambda>e. take (length e) ?bs = e"
  from assms obtain e where f: "find ?P space_utf8 = Some e" and k: "space_width s = length e"
    by (auto simp add: space_width_def split: option.splits)
  from f obtain i where i: "i < length space_utf8" "?P (space_utf8 ! i)" "e = space_utf8 ! i"
      "\<forall>j<i. \<not> ?P (space_utf8 ! j)"
    unfolding find_Some_iff by blast
  have e: "take (length e) ?bs = e"
    using i(2,3) by simp
  then have "length (take (length e) ?bs) = length e"
    by simp
  then have "length e \<le> length ?bs"
    by simp
  then show le: "space_width s \<le> length s"
    by (simp add: k)
  define s' where "s' = take (space_width s) s @ t"
  let ?bs' = "map of_char s' :: nat list"
  let ?Q = "\<lambda>e'. take (length e') ?bs' = e'"
  have bs': "?bs' = e @ map of_char t"
    using e by (simp add: s'_def k take_map)
  have "find ?Q space_utf8 = Some e"
    unfolding find_Some_iff
  proof (intro exI [of _ i] conjI allI impI)
    show "i < length space_utf8" by (rule i(1))
    show "?Q (space_utf8 ! i)"
      unfolding bs' i(3) [symmetric] by simp
    show "e = space_utf8 ! i" by (rule i(3))
    fix j
    assume j: "j < i"
    show "\<not> ?Q (space_utf8 ! j)"
    proof
      let ?a = "space_utf8 ! j"
      assume q: "?Q ?a"
      have mem: "?a \<in> set space_utf8" "e \<in> set space_utf8"
        using i(1,3) j by simp_all
      have "?a = e"
      proof (cases "length ?a \<le> length e")
        case True
        with q have "take (length ?a) e = ?a"
          unfolding bs' by simp
        with mem show ?thesis
          using space_utf8_prefix_free by blast
      next
        case False
        from q have "take (length e) ?a
            = take (length e) (take (length ?a) (e @ map of_char t))"
          unfolding bs' by simp
        also have "\<dots> = take (length e) (e @ map of_char t)"
          using False by (simp add: min_def)
        also have "\<dots> = e"
          by simp
        finally have "take (length e) ?a = e" .
        with mem show ?thesis
          using space_utf8_prefix_free by metis
      qed
      with e have "take (length ?a) ?bs = ?a"
        by (simp only:)
      with i(4) j show False by blast
    qed
  qed
  then have "space_width s' = length e"
    by (simp add: space_width_def)
  then show "space_width (take (space_width s) s @ t) = space_width s"
    unfolding s'_def k .
qed

lemma SkipSpace_Nil: "SkipSpace [] = Inr []"
  by (simp add: SkipSpace.simps)

lemma SkipSpace_newline: "SkipSpace (CHR 0x0A # cs) = Inl (scanError ''unexpected newline'')"
  by (simp add: SkipSpace.simps)

lemma SkipSpace_Cons:
  "SkipSpace (c # cs) =
     (if c = CHR 0x0D \<and> take 1 cs = [CHR 0x0A] then SkipSpace cs
      else if c = CHR 0x0A then Inl (scanError ''unexpected newline'')
      else if space_width (c # cs) = 0 then Inr (c # cs)
      else SkipSpace (drop (space_width (c # cs)) (c # cs)))"
  by (subst SkipSpace.simps) (simp only: list.case)

text \<open>What \<open>SkipSpace\<close> takes off the input is white space that it skips to the end.\<close>

lemma SkipSpace_split:
  assumes "SkipSpace s = Inr s'"
  shows "\<exists>w. s = w @ s' \<and> SkipSpace w = Inr []"
  using assms
proof (induction s rule: SkipSpace.induct)
  case (1 s)
  show ?case
  proof (cases s)
    case Nil
    with "1.prems" show ?thesis
      by (simp add: SkipSpace_Nil)
  next
    case (Cons c cs)
    consider (crlf) "c = CHR 0x0D \<and> take 1 cs = [CHR 0x0A]"
      | (lf) "\<not> (c = CHR 0x0D \<and> take 1 cs = [CHR 0x0A])" "c = CHR 0x0A"
      | (stop) "\<not> (c = CHR 0x0D \<and> take 1 cs = [CHR 0x0A])" "c \<noteq> CHR 0x0A" "space_width s = 0"
      | (skip) "\<not> (c = CHR 0x0D \<and> take 1 cs = [CHR 0x0A])" "c \<noteq> CHR 0x0A" "space_width s \<noteq> 0"
      by blast
    then show ?thesis
    proof cases
      case crlf
      then obtain cs' where cs': "cs = CHR 0x0A # cs'"
        by (cases cs) auto
      have "SkipSpace (c # cs) = SkipSpace cs"
        using crlf by (simp only: SkipSpace_Cons if_True simp_thms)
      also have "\<dots> = Inl (scanError ''unexpected newline'')"
        unfolding cs' by (rule SkipSpace_newline)
      finally have "SkipSpace s = Inl (scanError ''unexpected newline'')"
        by (simp only: Cons)
      with "1.prems" show ?thesis by simp
    next
      case lf
      with Cons have "SkipSpace s = Inl (scanError ''unexpected newline'')"
        by (simp add: SkipSpace_newline)
      with "1.prems" show ?thesis by simp
    next
      case stop
      have "SkipSpace (c # cs) = Inr (c # cs)"
        using stop unfolding Cons by (simp only: SkipSpace_Cons if_False if_True simp_thms)
      then have "SkipSpace s = Inr s"
        by (simp only: Cons)
      with "1.prems" show ?thesis
        by (intro exI [of _ "[]"]) (simp add: SkipSpace_Nil)
    next
      case skip
      define k where "k = space_width s"
      have k: "0 < k" "k \<le> length s"
        using skip(3) space_width_take(1) [of s] by (simp_all add: k_def)
      have "SkipSpace (c # cs) = SkipSpace (drop (space_width (c # cs)) (c # cs))"
        using skip unfolding Cons by (simp only: SkipSpace_Cons if_False simp_thms)
      then have "SkipSpace s = SkipSpace (drop k s)"
        by (simp only: Cons k_def)
      with "1.prems" have "SkipSpace (drop k s) = Inr s'" by simp
      then obtain w' where w': "drop k s = w' @ s'" "SkipSpace w' = Inr []"
        using "1.IH"(2) [OF Cons skip] unfolding k_def by blast
      obtain rest where rest: "take k s @ w' = c # rest" "rest @ s' = cs"
      proof
        show "take k s @ w' = c # (take (k - 1) cs @ w')"
          using k(1) Cons by (cases k) simp_all
        have "take k s @ w' @ s' = s"
          using w'(1) by (metis append_take_drop_id)
        then show "(take (k - 1) cs @ w') @ s' = cs"
          using k(1) Cons by (cases k) simp_all
      qed
      have nocrlf: "\<not> (c = CHR 0x0D \<and> take 1 rest = [CHR 0x0A])"
      proof (cases rest)
        case Nil
        then show ?thesis by simp
      next
        case (Cons r rs)
        with rest(2) have "take 1 rest = take 1 cs" by auto
        with skip(1) show ?thesis by simp
      qed
      have sw: "space_width (take k s @ w') = k"
        unfolding k_def using skip(3) by (intro space_width_take(2)) simp
      have "drop k (take k s @ w') = w'"
        using k(2) by simp
      moreover have "space_width (c # rest) \<noteq> 0"
        using sw k(1) unfolding rest(1) by simp
      ultimately have "SkipSpace (c # rest) = SkipSpace w'"
        using nocrlf skip(2) sw unfolding rest(1)
        by (simp only: SkipSpace_Cons if_False simp_thms)
      then have "SkipSpace (take k s @ w') = SkipSpace w'"
        by (simp only: rest(1))
      then have "SkipSpace (take k s @ w') = Inr []"
        by (simp add: w'(2))
      moreover have "s = (take k s @ w') @ s'"
        using w'(1) by (metis append_take_drop_id append_assoc)
      ultimately show ?thesis by blast
    qed
  qed
qed

lemma scanUint_split:
  assumes "scanUint s = Inr (v, rest)"
  shows "\<exists>w d. s = w @ d @ rest \<and> SkipSpace w = Inr []
    \<and> d \<noteq> [] \<and> set d \<subseteq> set decimalDigits \<and> token_value d < 2 ^ 32
    \<and> v = of_nat (token_value d)"
proof (cases "SkipSpace s")
  case (Inl e)
  with assms show ?thesis by (simp add: scanUint_def)
next
  case (Inr s')
  define d where "d = takeWhile (\<lambda>c. c \<in> set decimalDigits) s'"
  have r: "d \<noteq> []" "token_value d < 2 ^ 32" "v = of_nat (token_value d)"
    "rest = dropWhile (\<lambda>c. c \<in> set decimalDigits) s'"
    using assms unfolding scanUint_def Inr d_def
    by (simp_all add: Let_def split: if_splits)
  have "s' = d @ rest"
    unfolding d_def r(4) by simp
  moreover obtain w where "s = w @ s'" "SkipSpace w = Inr []"
    using SkipSpace_split [OF Inr] by blast
  moreover have "set d \<subseteq> set decimalDigits"
    unfolding d_def by (auto dest: set_takeWhileD)
  ultimately show ?thesis
    using r(1-3) by blast
qed

lemma literal_dot_split: "literal_dot s = Inr s' \<Longrightarrow> s = CHR ''.'' # s'"
  by (cases s) (simp_all add: literal_dot_def split: if_splits)

lemma Sscanf_pass_form:
  assumes "fst (Sscanf ip) = 4"
  shows "\<exists>w1 d1 w2 d2 w3 d3 w4 d4 rest.
    ip = w1 @ d1 @ ''.'' @ w2 @ d2 @ ''.'' @ w3 @ d3 @ ''.'' @ w4 @ d4 @ rest
    \<and> (\<forall>w\<in>set [w1, w2, w3, w4]. SkipSpace w = Inr [])
    \<and> (\<forall>d\<in>set [d1, d2, d3, d4].
          d \<noteq> [] \<and> set d \<subseteq> set decimalDigits \<and> token_value d < 2 ^ 32)
    \<and> Sscanf ip = (4, None, of_nat (token_value d1), of_nat (token_value d2),
          of_nat (token_value d3), of_nat (token_value d4))"
proof (cases ip rule: Sscanf_cases)
  case (fail n e o1 o2 o3 o4)
  with assms show ?thesis by simp
next
  case (pass o1 r1 s1 o2 r2 s2 o3 r3 s3 o4 r4)
  from scanUint_split [OF pass(1)] obtain w1 d1 where 1: "ip = w1 @ d1 @ r1"
    "SkipSpace w1 = Inr []" "d1 \<noteq> []" "set d1 \<subseteq> set decimalDigits"
    "token_value d1 < 2 ^ 32" "o1 = of_nat (token_value d1)"
    by blast
  from scanUint_split [OF pass(3)] obtain w2 d2 where 2: "s1 = w2 @ d2 @ r2"
    "SkipSpace w2 = Inr []" "d2 \<noteq> []" "set d2 \<subseteq> set decimalDigits"
    "token_value d2 < 2 ^ 32" "o2 = of_nat (token_value d2)"
    by blast
  from scanUint_split [OF pass(5)] obtain w3 d3 where 3: "s2 = w3 @ d3 @ r3"
    "SkipSpace w3 = Inr []" "d3 \<noteq> []" "set d3 \<subseteq> set decimalDigits"
    "token_value d3 < 2 ^ 32" "o3 = of_nat (token_value d3)"
    by blast
  from scanUint_split [OF pass(7)] obtain w4 d4 where 4: "s3 = w4 @ d4 @ r4"
    "SkipSpace w4 = Inr []" "d4 \<noteq> []" "set d4 \<subseteq> set decimalDigits"
    "token_value d4 < 2 ^ 32" "o4 = of_nat (token_value d4)"
    by blast
  have "ip = w1 @ d1 @ ''.'' @ w2 @ d2 @ ''.'' @ w3 @ d3 @ ''.'' @ w4 @ d4 @ r4"
    unfolding 1(1) literal_dot_split [OF pass(2)] 2(1) literal_dot_split [OF pass(4)] 3(1)
      literal_dot_split [OF pass(6)] 4(1)
    by simp
  moreover have "\<forall>w\<in>set [w1, w2, w3, w4]. SkipSpace w = Inr []"
    using 1(2) 2(2) 3(2) 4(2) by simp
  moreover have "\<forall>d\<in>set [d1, d2, d3, d4].
      d \<noteq> [] \<and> set d \<subseteq> set decimalDigits \<and> token_value d < 2 ^ 32"
    using 1(3-5) 2(3-5) 3(3-5) 4(3-5) by simp
  moreover have "Sscanf ip = (4, None, of_nat (token_value d1), of_nat (token_value d2),
      of_nat (token_value d3), of_nat (token_value d4))"
    using pass(8) by (simp only: 1(6) 2(6) 3(6) 4(6))
  ultimately show ?thesis by blast
qed

text \<open>
  C7, amended.  When the scan does not store four integers, \<open>Decode\<close> returns the
  invalid-address error (code -1) wrapping the scanner's error, which is always there.
  Only a string that begins with four decimal integers below \<open>2 ^ 32\<close> with a dot after
  each of the first three passes the scan, where white space that the scanner skips may
  stand before each integer and anything may follow the fourth; and every string of four
  such integers separated by dots passes it, also with text after the fourth that does
  not start with a digit.
\<close>

theorem Decode_parse_gate:
  "(fst (Sscanf ip) \<noteq> 4 \<longrightarrow>
      (\<exists>e. fst (snd (Sscanf ip)) = Some e
         \<and> Decode ip = (Result_zero, Some \<lparr>Code = -1, Err = Some e\<rparr>)))
   \<and> (fst (Sscanf ip) = 4 \<longrightarrow>
      (\<exists>w1 d1 w2 d2 w3 d3 w4 d4 rest.
         ip = w1 @ d1 @ ''.'' @ w2 @ d2 @ ''.'' @ w3 @ d3 @ ''.'' @ w4 @ d4 @ rest
         \<and> (\<forall>w\<in>set [w1, w2, w3, w4]. SkipSpace w = Inr [])
         \<and> (\<forall>d\<in>set [d1, d2, d3, d4].
               d \<noteq> [] \<and> set d \<subseteq> set decimalDigits \<and> token_value d < 2 ^ 32)
         \<and> Sscanf ip = (4, None, of_nat (token_value d1), of_nat (token_value d2),
               of_nat (token_value d3), of_nat (token_value d4))))
   \<and> ((\<forall>a\<in>set [a1, a2, a3, a4].
          a \<noteq> [] \<and> set a \<subseteq> set decimalDigits \<and> token_value a < 2 ^ 32)
       \<and> (tail = [] \<or> hd tail \<notin> set decimalDigits) \<longrightarrow>
      Sscanf (a1 @ ''.'' @ a2 @ ''.'' @ a3 @ ''.'' @ a4 @ tail)
        = (4, None, of_nat (token_value a1), of_nat (token_value a2),
           of_nat (token_value a3), of_nat (token_value a4)))"
proof (intro conjI impI)
  assume f: "fst (Sscanf ip) \<noteq> 4"
  then obtain e where e: "fst (snd (Sscanf ip)) = Some e"
    using Sscanf_fail_error by blast
  obtain n err o1 o2 o3 o4 where S: "Sscanf ip = (n, err, o1, o2, o3, o4)"
    by (metis prod_cases3)
  with f e have "Decode ip = (Result_zero, Some \<lparr>Code = -1, Err = Some e\<rparr>)"
    using Decode_parse_fail [OF S] by simp
  with e show "\<exists>e. fst (snd (Sscanf ip)) = Some e
      \<and> Decode ip = (Result_zero, Some \<lparr>Code = -1, Err = Some e\<rparr>)"
    by blast
next
  assume "fst (Sscanf ip) = 4"
  then show "\<exists>w1 d1 w2 d2 w3 d3 w4 d4 rest.
         ip = w1 @ d1 @ ''.'' @ w2 @ d2 @ ''.'' @ w3 @ d3 @ ''.'' @ w4 @ d4 @ rest
         \<and> (\<forall>w\<in>set [w1, w2, w3, w4]. SkipSpace w = Inr [])
         \<and> (\<forall>d\<in>set [d1, d2, d3, d4].
               d \<noteq> [] \<and> set d \<subseteq> set decimalDigits \<and> token_value d < 2 ^ 32)
         \<and> Sscanf ip = (4, None, of_nat (token_value d1), of_nat (token_value d2),
               of_nat (token_value d3), of_nat (token_value d4))"
    by (rule Sscanf_pass_form)
next
  assume a: "(\<forall>a\<in>set [a1, a2, a3, a4].
          a \<noteq> [] \<and> set a \<subseteq> set decimalDigits \<and> token_value a < 2 ^ 32)
       \<and> (tail = [] \<or> hd tail \<notin> set decimalDigits)"
  have "Sscanf (a1 @ CHR ''.'' # a2 @ CHR ''.'' # a3 @ CHR ''.'' # a4 @ tail)
        = (4, None, of_nat (token_value a1), of_nat (token_value a2),
           of_nat (token_value a3), of_nat (token_value a4))"
    using a by (intro Sscanf_dotted) simp_all
  then show "Sscanf (a1 @ ''.'' @ a2 @ ''.'' @ a3 @ ''.'' @ a4 @ tail)
        = (4, None, of_nat (token_value a1), of_nat (token_value a2),
           of_nat (token_value a3), of_nat (token_value a4))"
    by simp
qed

text \<open>
  The three parts at work: "240.3.9" ends before the third dot; " 240.3.9.77xyz" passes
  with a space before the first integer and text after the fourth; "240", "3", "9", "77"
  and the tail "xyz" make a string that passes.
\<close>

theorem Decode_parse_gate_witness:
  "Decode ''240.3.9'' = (Result_zero, Some \<lparr>Code = -1, Err = Some io_ErrUnexpectedEOF\<rparr>)
   \<and> (\<exists>w1 d1 w2 d2 w3 d3 w4 d4 rest.
         '' 240.3.9.77xyz'' = w1 @ d1 @ ''.'' @ w2 @ d2 @ ''.'' @ w3 @ d3 @ ''.'' @ w4 @ d4 @ rest
         \<and> (\<forall>w\<in>set [w1, w2, w3, w4]. SkipSpace w = Inr [])
         \<and> (\<forall>d\<in>set [d1, d2, d3, d4].
               d \<noteq> [] \<and> set d \<subseteq> set decimalDigits \<and> token_value d < 2 ^ 32)
         \<and> Sscanf '' 240.3.9.77xyz'' = (4, None, of_nat (token_value d1), of_nat (token_value d2),
               of_nat (token_value d3), of_nat (token_value d4)))
   \<and> Sscanf ''240.3.9.77xyz'' = (4, None, 240, 3, 9, 77)"
proof (intro conjI)
  have "fst (Sscanf ''240.3.9'') \<noteq> 4"
    and "fst (snd (Sscanf ''240.3.9'')) = Some io_ErrUnexpectedEOF"
    by (simp_all add: Sscanf_short)
  with Decode_parse_gate [where ip = "''240.3.9''", THEN conjunct1]
  show "Decode ''240.3.9'' = (Result_zero, Some \<lparr>Code = -1, Err = Some io_ErrUnexpectedEOF\<rparr>)"
    by auto
next
  have "Sscanf '' 240.3.9.77xyz'' = (4, None, 240, 3, 9, 77)"
    by (simp add: scan_eval)
  then have "fst (Sscanf '' 240.3.9.77xyz'') = 4"
    by simp
  with Decode_parse_gate [where ip = "'' 240.3.9.77xyz''", THEN conjunct2, THEN conjunct1]
  show "\<exists>w1 d1 w2 d2 w3 d3 w4 d4 rest.
         '' 240.3.9.77xyz'' = w1 @ d1 @ ''.'' @ w2 @ d2 @ ''.'' @ w3 @ d3 @ ''.'' @ w4 @ d4 @ rest
         \<and> (\<forall>w\<in>set [w1, w2, w3, w4]. SkipSpace w = Inr [])
         \<and> (\<forall>d\<in>set [d1, d2, d3, d4].
               d \<noteq> [] \<and> set d \<subseteq> set decimalDigits \<and> token_value d < 2 ^ 32)
         \<and> Sscanf '' 240.3.9.77xyz'' = (4, None, of_nat (token_value d1), of_nat (token_value d2),
               of_nat (token_value d3), of_nat (token_value d4))"
    by (rule mp)
next
  have "(\<forall>a\<in>set [''240'', ''3'', ''9'', ''77''].
          a \<noteq> [] \<and> set a \<subseteq> set decimalDigits \<and> token_value a < 2 ^ 32)
       \<and> (''xyz'' = [] \<or> hd ''xyz'' \<notin> set decimalDigits)"
    by (simp add: decimalDigits_def token_value_def)
  with Decode_parse_gate [where ?a1.0 = "''240''" and ?a2.0 = "''3''" and ?a3.0 = "''9''"
      and ?a4.0 = "''77''" and tail = "''xyz''", THEN conjunct2, THEN conjunct2]
  have "Sscanf (''240'' @ ''.'' @ ''3'' @ ''.'' @ ''9'' @ ''.'' @ ''77'' @ ''xyz'')
        = (4, None, of_nat (token_value ''240''), of_nat (token_value ''3''),
           of_nat (token_value ''9''), of_nat (token_value ''77''))"
    by (rule mp)
  then show "Sscanf ''240.3.9.77xyz'' = (4, None, 240, 3, 9, 77)"
    by (simp add: token_value_def)
qed

end
